theory Spec2Isabelle
  imports Main "HOL-Library.Multiset"
begin


section \<open>Transaction name: method and normalised path\<close>

text \<open>
  Lines 49--64 of \<^verbatim>\<open>withSentry.ts\<close> build the transaction name from the request.
  JavaScript strings are modelled as \<^typ>\<open>string\<close>. The query map is the list that
  \<^verbatim>\<open>Object.entries(req.query)\<close> yields, in that order; a value of the map is a string
  or an array of strings, and the template literal \<^verbatim>\<open>`${value}`\<close> renders an array
  with its elements joined by commas.
\<close>

datatype qval = QStr string | QArr "string list"

fun joinComma :: "string list \<Rightarrow> string" where
  "joinComma [] = []"
| "joinComma [x] = x"
| "joinComma (x # y # ys) = x @ '','' @ joinComma (y # ys)"

fun toStringQ :: "qval \<Rightarrow> string" where
  "toStringQ (QStr s) = s"
| "toStringQ (QArr xs) = joinComma xs"

text \<open>
  \<^verbatim>\<open>String.prototype.indexOf\<close>: the position of the first occurrence of the pattern,
  if there is one. The empty pattern occurs at position 0.
\<close>

fun startsWith :: "string \<Rightarrow> string \<Rightarrow> bool" where
  "startsWith s [] = True"
| "startsWith [] (p # ps) = False"
| "startsWith (c # cs) (p # ps) = (c = p \<and> startsWith cs ps)"

fun indexOf :: "string \<Rightarrow> string \<Rightarrow> nat option" where
  "indexOf [] pat = (if pat = [] then Some 0 else None)"
| "indexOf (c # cs) pat =
     (if startsWith (c # cs) pat then Some 0
      else (case indexOf cs pat of None \<Rightarrow> None | Some i \<Rightarrow> Some (Suc i)))"

text \<open>
  The replacement text of \<^verbatim>\<open>replace\<close> is not taken literally: the dollar patterns of
  \<^verbatim>\<open>GetSubstitution\<close> are expanded. With a string pattern there are no capture
  groups, so only \<^verbatim>\<open>$$\<close>, \<^verbatim>\<open>$&\<close>, \<^verbatim>\<open>$`\<close> and \<^verbatim>\<open>$'\<close> are special; every other
  dollar sign stays as it is.
\<close>

fun getSubstitution :: "string \<Rightarrow> string \<Rightarrow> string \<Rightarrow> string \<Rightarrow> string" where
  "getSubstitution matched pre post [] = []"
| "getSubstitution matched pre post [c] = [c]"
| "getSubstitution matched pre post (c # d # rest) =
     (if c = CHR ''$'' then
        (if d = CHR ''$'' then CHR ''$'' # getSubstitution matched pre post rest
         else if d = CHR ''&'' then matched @ getSubstitution matched pre post rest
         else if d = CHR 0x60 then pre @ getSubstitution matched pre post rest
         else if d = CHR 0x27 then post @ getSubstitution matched pre post rest
         else c # getSubstitution matched pre post (d # rest))
      else c # getSubstitution matched pre post (d # rest))"

text \<open>
  \<^verbatim>\<open>str.replace(pattern, replacement)\<close> with a string pattern: only the first
  occurrence is replaced, and a string without the pattern is returned unchanged.
\<close>

definition replace :: "string \<Rightarrow> string \<Rightarrow> string \<Rightarrow> string" where
  "replace str pat repl =
     (case indexOf str pat of
        None \<Rightarrow> str
      | Some i \<Rightarrow>
          (let pre = take i str; post = drop (i + length pat) str
           in pre @ getSubstitution pat pre post repl @ post))"

text \<open>
  The loop of lines 56--58:
  \<^verbatim>\<open>for (const [key, value] of Object.entries(req.query)) {
    reqPath = reqPath.replace(`${value}`, `[${key}]`);
  }\<close>
\<close>

fun replaceParams :: "string \<Rightarrow> (string \<times> qval) list \<Rightarrow> string" where
  "replaceParams reqPath [] = reqPath"
| "replaceParams reqPath ((key, v) # entries) =
     replaceParams (replace reqPath (toStringQ v) (''['' @ key @ '']'')) entries"

text \<open>
  Modelled from the spec: \<^verbatim>\<open>stripUrlQueryAndFragment\<close> of the utilities package is
  not among the sources; by its name and the comment at line 50 (``pull off query string,
  if any'') it keeps the URL up to the first \<^verbatim>\<open>?\<close> or \<^verbatim>\<open>#\<close>.
\<close>

definition stripUrlQueryAndFragment :: "string \<Rightarrow> string" where
  "stripUrlQueryAndFragment url = takeWhile (\<lambda>c. c \<noteq> CHR ''?'' \<and> c \<noteq> CHR ''#'') url"

text \<open>
  \<^verbatim>\<open>toUpperCase\<close> on the ASCII letters (an HTTP method is an ASCII token).
\<close>

definition toUpperChar :: "char \<Rightarrow> char" where
  "toUpperChar c =
     (case map_of (zip ''abcdefghijklmnopqrstuvwxyz'' ''ABCDEFGHIJKLMNOPQRSTUVWXYZ'') c of
        None \<Rightarrow> c
      | Some u \<Rightarrow> u)"

definition toUpperCase :: "string \<Rightarrow> string" where
  "toUpperCase s = map toUpperChar s"

text \<open>
  The request as the wrapper reads it: \<^verbatim>\<open>req.method\<close>, \<^verbatim>\<open>req.url\<close> and
  \<^verbatim>\<open>req.query\<close> may be undefined (\<open>None\<close>); the header \<^verbatim>\<open>sentry-trace\<close> is
  absent, a string, or an array of strings.
\<close>

datatype header = HString string | HArray "string list"

record request =
  req_method :: "string option"
  req_url :: "string option"
  req_query :: "(string \<times> qval) list option"
  req_sentry_trace :: "header option"

text \<open>Lines 49--59: the path with the query values replaced by placeholders.\<close>

definition normalizedPath :: "request \<Rightarrow> string" where
  "normalizedPath req =
     (let url = (case req_url req of None \<Rightarrow> ''undefined'' | Some u \<Rightarrow> u);
          reqPath = stripUrlQueryAndFragment url
      in (case req_query req of
            None \<Rightarrow> reqPath
          | Some entries \<Rightarrow> replaceParams reqPath entries))"

text \<open>Line 60: \<^verbatim>\<open>`${(req.method || 'GET').toUpperCase()} `\<close>; the empty string is falsy.\<close>

definition reqMethod :: "request \<Rightarrow> string" where
  "reqMethod req =
     toUpperCase (case req_method req of
                    None \<Rightarrow> ''GET''
                  | Some m \<Rightarrow> (if m = [] then ''GET'' else m)) @ '' ''"

text \<open>Line 64: the name handed to \<^verbatim>\<open>startTransaction\<close>.\<close>

definition transactionName :: "request \<Rightarrow> string" where
  "transactionName req = reqMethod req @ normalizedPath req"

section \<open>Trace propagation tokens\<close>

text \<open>
  Modelled from the spec: \<^verbatim>\<open>extractTraceparentData\<close> (line 45) belongs to the tracing
  package, which is not among the sources; only a test of its predecessor
  \<^verbatim>\<open>Span.fromTraceparent\<close> is. The specification gives the wire format
  \<^verbatim>\<open><2-hex-version>-<32-hex-traceId>-<16-hex-spanId>-<2-hex-flags>\<close> and says that any
  other shape yields none. The hexadecimal digits are taken to be \<open>0\<close>--\<open>9\<close> and
  \<open>a\<close>--\<open>f\<close>, as in the tokens of the test; the parsed token keeps the trace id, the
  span id of the sender and the flags field that carries the sampling decision.
\<close>

definition isHexDigit :: "char \<Rightarrow> bool" where
  "isHexDigit c = (c \<in> set ''0123456789abcdef'')"

record traceparentData =
  traceId :: string
  parentSpanId :: string
  flags :: string

definition extractTraceparentData :: "string \<Rightarrow> traceparentData option" where
  "extractTraceparentData s =
     (let version = take 2 s;
          tid = take 32 (drop 3 s);
          sid = take 16 (drop 36 s);
          fl = drop 53 s
      in if length s = 55
            \<and> s ! 2 = CHR ''-'' \<and> s ! 35 = CHR ''-'' \<and> s ! 52 = CHR ''-''
            \<and> list_all isHexDigit version \<and> list_all isHexDigit tid
            \<and> list_all isHexDigit sid \<and> list_all isHexDigit fl
         then Some \<lparr>traceId = tid, parentSpanId = sid, flags = fl\<rparr>
         else None)"

text \<open>
  The format in the words of the specification, kept apart from the parser: the input is
  the four fields, of 2, 32, 16 and 2 hexadecimal digits, joined by hyphens.
\<close>

definition traceparentFormat :: "string \<Rightarrow> string \<Rightarrow> string \<Rightarrow> string \<Rightarrow> string \<Rightarrow> bool" where
  "traceparentFormat s version tid sid fl \<longleftrightarrow>
     s = version @ ''-'' @ tid @ ''-'' @ sid @ ''-'' @ fl
     \<and> length version = 2 \<and> list_all isHexDigit version
     \<and> length tid = 32 \<and> list_all isHexDigit tid
     \<and> length sid = 16 \<and> list_all isHexDigit sid
     \<and> length fl = 2 \<and> list_all isHexDigit fl"

text \<open>
  Lines 43--47: the header is parsed only when it is a string
  (\<^verbatim>\<open>req.headers && isString(req.headers['sentry-trace'])\<close>).
\<close>

definition traceparentOf :: "request \<Rightarrow> traceparentData option" where
  "traceparentOf req =
     (case req_sentry_trace req of
        Some (HString h) \<Rightarrow> extractTraceparentData h
      | _ \<Rightarrow> None)"

text \<open>
  Modelled from the spec: the construction of a token (\<^verbatim>\<open>toTraceparent\<close> in the test
  file) is not among the sources. A token is built from a trace id, a span id and the
  sampling decision, in the wire format above with version \<open>00\<close> as in the test's token.
\<close>

definition toTraceparent :: "string \<Rightarrow> string \<Rightarrow> bool \<Rightarrow> string" where
  "toTraceparent tid sid sampled =
     ''00-'' @ tid @ ''-'' @ sid @ ''-'' @ (if sampled then ''01'' else ''00'')"

text \<open>
  Modelled from the spec: the span built from a token (\<^verbatim>\<open>Span.fromTraceparent\<close> in the
  test file, \<^verbatim>\<open>start\<close> with a parent in the specification) is not among the sources.
  The specification says that the new span is a child of the parent and that its span id
  is ``always generated, distinct from parent's''. The identifier generator is a supply of
  candidate ids in the order in which they are drawn; the new span takes the first
  candidate that differs from the parent's span id. An invalid token gives no span.
\<close>

record spanContext =
  span_traceId :: string
  span_spanId :: string
  span_parentSpanId :: "string option"

definition freshSpanId :: "string \<Rightarrow> string list \<Rightarrow> string option" where
  "freshSpanId parent supply = find (\<lambda>c. c \<noteq> parent) supply"

definition fromTraceparent :: "string \<Rightarrow> string list \<Rightarrow> spanContext option" where
  "fromTraceparent token supply =
     (case extractTraceparentData token of
        None \<Rightarrow> None
      | Some tp \<Rightarrow>
          (case freshSpanId (parentSpanId tp) supply of
             None \<Rightarrow> None
           | Some sid \<Rightarrow>
               Some \<lparr>span_traceId = traceId tp, span_spanId = sid,
                     span_parentSpanId = Some (parentSpanId tp)\<rparr>))"


section \<open>The wrapped handler on an event loop\<close>

text \<open>
  \<^verbatim>\<open>withSentry\<close>, \<^verbatim>\<open>wrapEndMethod\<close> and \<^verbatim>\<open>finishSentryWork\<close> are asynchronous
  functions. Each is cut at its \<^verbatim>\<open>await\<close>s: the code up to the first \<^verbatim>\<open>await\<close> runs
  when the function is called, and the code after an \<^verbatim>\<open>await\<close> is a task that the event
  loop runs once the awaited promise has settled. The loop has a queue of microtasks
  (continuations of settled promises), which is emptied before anything else happens, and
  a queue of macrotasks (\<^verbatim>\<open>setImmediate\<close> callbacks, timers, completed input and
  output); every macrotask starts a new turn of the loop. The \<^verbatim>\<open>console.log\<close> and
  \<^verbatim>\<open>debugger\<close> statements and the domain that isolates the scope are left out.
\<close>

subsection \<open>Values, transaction and response\<close>

text \<open>
  A thrown value is a primitive or a reference to an object. \<open>Boxed n p\<close> is the
  \<open>n\<close>-th wrapper object made by \<^verbatim>\<open>objectify\<close>, around the primitive \<open>p\<close>; two values are
  the same object exactly when they are equal.
\<close>

datatype prim = PString string | PNumber int | PBoolean bool

datatype jsval = Prim prim | Obj nat | Boxed nat prim

text \<open>
  Modelled from the spec: \<^verbatim>\<open>objectify\<close> of the utilities package is not among the
  sources. The specification (4.5, step 1) and the comment at lines 126--129 say that a
  primitive is wrapped in the equivalent wrapper object and that anything else is passed
  on as it is. The second argument counts the wrapper objects made so far.
\<close>

definition objectify :: "jsval \<Rightarrow> nat \<Rightarrow> jsval \<times> nat" where
  "objectify e n = (case e of Prim p \<Rightarrow> (Boxed n p, Suc n) | _ \<Rightarrow> (e, n))"

text \<open>
  Modelled from the spec: the transaction object of the tracing package is not among the
  sources. By the specification (3 and 4.3) it has a name, an operation tag, an optional
  parent, a status that \<^verbatim>\<open>setHttpStatus\<close> sets, and an internal flag that makes
  \<^verbatim>\<open>finish\<close> on a finished transaction do nothing.
\<close>

record transaction =
  tx_name :: string
  tx_op :: string
  tx_parent :: "traceparentData option"
  tx_httpStatus :: "nat option"
  tx_finished :: bool

definition startTransaction :: "string \<Rightarrow> string \<Rightarrow> traceparentData option \<Rightarrow> transaction" where
  "startTransaction name op parent =
     \<lparr>tx_name = name, tx_op = op, tx_parent = parent, tx_httpStatus = None,
      tx_finished = False\<rparr>"

definition setHttpStatus :: "nat \<Rightarrow> transaction \<Rightarrow> transaction" where
  "setHttpStatus code tx = tx\<lparr>tx_httpStatus := Some code\<rparr>"

definition finish :: "transaction \<Rightarrow> transaction" where
  "finish tx = (if tx_finished tx then tx else tx\<lparr>tx_finished := True\<rparr>)"

text \<open>
  \<^verbatim>\<open>AugmentedNextApiResponse\<close> (lines 13--16), with the fields of the response that the
  wrapper reads or writes. The transaction object is reached only through the response
  (and through the closure of \<^verbatim>\<open>finishSentryWork\<close>, which holds the same object), so its
  state is kept in the slot.
\<close>

record response =
  statusCode :: nat
  statusMessage :: string
  finished :: bool
  sentryTransaction :: "transaction option"
  sentryCapturedError :: "jsval option"

subsection \<open>Handler, flush and events\<close>

text \<open>
  The original handler is any program that sets the status code, calls \<^verbatim>\<open>res.end()\<close>
  (the wrapped method, whose promise it does not await) and awaits promises of its own,
  settled within the turn or by a later macrotask, and that at last returns or throws.
\<close>

datatype haction = SetStatusCode nat | CallEnd | AwaitMicrotask | AwaitMacrotask

datatype houtcome = Returns | Throws jsval

text \<open>
  \<^verbatim>\<open>flush\<close> of the backend is not among the sources; the specification (6) gives it as
  an opaque \<^verbatim>\<open>flush(timeoutMs) -> Promise<boolean>\<close> that is bounded by its timeout. Each
  call settles, either within the turn in which it was made or in a later turn, and either
  by resolving to a boolean or by rejecting. What the successive calls do is a parameter
  of the model; a call beyond the given list resolves to true in a later turn.
\<close>

datatype timing = SameTurn | LaterTurn

datatype settle = Resolved bool | Rejected jsval

text \<open>
  \<^verbatim>\<open>finishSentryWork\<close> is called from the wrapped end method (line 176), for the
  \<open>n\<close>-th call of \<^verbatim>\<open>res.end\<close>, and from the catch block (line 156), where the
  continuation holds \<^verbatim>\<open>objectifiedErr\<close>.
\<close>

datatype caller = ByEnd nat | ByCatch jsval

text \<open>
  What a run does is recorded as a list of events, each with the turn of the loop in
  which it happened: \<open>AddEventProcessor\<close> for the calls at lines 39 and 132,
  \<open>StartTransaction\<close> for line 62, \<open>EndCalled n\<close> for the \<open>n\<close>-th call of the wrapped
  end, \<open>SetHttpStatus\<close> for line 191, \<open>FinishCalled\<close> for line 197 (with the status of
  the transaction and whether it was finished before), \<open>FlushCalled\<close> and \<open>FlushSettled\<close>
  for the start and the end of the await at line 208, \<open>FlushError\<close> for the catch at
  lines 210--212, \<open>FlipFinished\<close> for line 180, \<open>OrigEnd\<close> and \<open>WriteAfterEnd\<close> for a
  successful and a failing run of the original end at line 183, \<open>EndRejected\<close> for a
  rejected promise of the wrapped end, \<open>CaptureException\<close> for line 145,
  \<open>MarkFinished\<close> for line 111, and \<open>HostCheck\<close> and \<open>HostRejected\<close> for what the
  caller of the wrapper sees: the flag after a normal return, or the rejection. The other
  calls of the logger, the arguments of the original end and \<^verbatim>\<open>setSpan\<close> on the scope
  are not recorded.
\<close>

datatype event =
    AddEventProcessor
  | StartTransaction string string "traceparentData option"
  | EndCalled nat
  | SetHttpStatus caller nat
  | FinishCalled caller "nat option" bool
  | FlushCalled caller nat
  | FlushSettled caller
  | FlushError caller jsval
  | FlipFinished nat
  | OrigEnd nat
  | WriteAfterEnd nat
  | EndRejected nat jsval
  | CaptureException jsval
  | MarkFinished
  | HostCheck bool
  | HostRejected jsval

text \<open>
  The tasks are the continuations: of the handler after an await of its own, of the
  wrapper after line 81, the \<^verbatim>\<open>setImmediate\<close> callback of lines 196--199, of
  \<^verbatim>\<open>finishSentryWork\<close> after lines 201 and 208, of its caller after lines 156 and 176,
  and of the host after the wrapper's promise has settled.
\<close>

datatype task =
    HandlerResume "haction list" houtcome
  | AfterHandler houtcome
  | ImmediateFinish caller
  | AfterTransactionFinished caller
  | AfterFlush caller settle
  | AfterFinishSentryWork caller "jsval option"
  | HostContinue "jsval option"

text \<open>
  The state of a run: the response, whether \<^verbatim>\<open>getCurrentHub().getScope()\<close> gave a scope,
  the two queues, the number of the turn, the events so far, what the coming calls of
  \<^verbatim>\<open>flush\<close> will do, and the numbers of calls of the wrapped end and of wrapper objects
  made so far.
\<close>

record state =
  res :: response
  scope :: bool
  microtasks :: "task list"
  macrotasks :: "task list"
  turn :: nat
  log :: "(nat \<times> event) list"
  flushes :: "(timing \<times> settle) list"
  endCalls :: nat
  boxes :: nat

definition emit :: "event \<Rightarrow> state \<Rightarrow> state" where
  "emit e s = s\<lparr>log := log s @ [(turn s, e)]\<rparr>"

definition enqueueMicro :: "task \<Rightarrow> state \<Rightarrow> state" where
  "enqueueMicro t s = s\<lparr>microtasks := microtasks s @ [t]\<rparr>"

definition enqueueMacro :: "task \<Rightarrow> state \<Rightarrow> state" where
  "enqueueMacro t s = s\<lparr>macrotasks := macrotasks s @ [t]\<rparr>"

definition events :: "state \<Rightarrow> event list" where
  "events s = map snd (log s)"

subsection \<open>The three functions, cut at their awaits\<close>

text \<open>
  Lines 206--208: \<^verbatim>\<open>await flush(2000)\<close>. The continuation \<open>AfterFlush\<close> is a microtask
  when the promise settles within the turn and a macrotask otherwise.
\<close>

definition callFlush :: "caller \<Rightarrow> state \<Rightarrow> state" where
  "callFlush c s =
     (let b = (case flushes s of [] \<Rightarrow> (LaterTurn, Resolved True) | x # _ \<Rightarrow> x);
          s1 = emit (FlushCalled c 2000) (s\<lparr>flushes := tl (flushes s)\<rparr>)
      in (case fst b of
            SameTurn \<Rightarrow> enqueueMicro (AfterFlush c (snd b)) s1
          | LaterTurn \<Rightarrow> enqueueMacro (AfterFlush c (snd b)) s1))"

text \<open>
  Lines 187--201, up to the first await. With a transaction on the response the status is
  copied and \<^verbatim>\<open>transaction.finish\<close> is pushed to the next turn with \<^verbatim>\<open>setImmediate\<close>;
  without one the function goes on to the flush at once.
\<close>

definition finishSentryWork :: "caller \<Rightarrow> state \<Rightarrow> state" where
  "finishSentryWork c s =
     (case sentryTransaction (res s) of
        Some tx \<Rightarrow>
          enqueueMacro (ImmediateFinish c)
            (emit (SetHttpStatus c (statusCode (res s)))
               (s\<lparr>res := (res s)\<lparr>sentryTransaction :=
                             Some (setHttpStatus (statusCode (res s)) tx)\<rparr>\<rparr>))
      | None \<Rightarrow> callFlush c s)"

text \<open>
  Lines 173--176: a call of the wrapped end method. It is numbered and runs
  \<^verbatim>\<open>finishSentryWork(this)\<close> up to its first await.
\<close>

definition newEnd :: "state \<Rightarrow> state" where
  "newEnd s =
     finishSentryWork (ByEnd (endCalls s))
       (emit (EndCalled (endCalls s)) (s\<lparr>endCalls := Suc (endCalls s)\<rparr>))"

text \<open>
  The original end method of the platform, as the comments at lines 87--100 and 178--179
  give it: it marks the response finished, and fails with
  \<^verbatim>\<open>ERR_STREAM_WRITE_AFTER_END\<close> when it finds the response finished already.
\<close>

definition origEnd :: "nat \<Rightarrow> state \<Rightarrow> state" where
  "origEnd n s =
     (if finished (res s) then emit (WriteAfterEnd n) s
      else emit (OrigEnd n) (s\<lparr>res := (res s)\<lparr>finished := True\<rparr>\<rparr>))"

text \<open>
  The handler runs until it awaits or ends. When it ends, the promise that line 81 awaits
  settles and the rest of the wrapper becomes a microtask.
\<close>

fun runHandler :: "haction list \<Rightarrow> houtcome \<Rightarrow> state \<Rightarrow> state" where
  "runHandler [] out s = enqueueMicro (AfterHandler out) s"
| "runHandler (SetStatusCode n # as) out s =
     runHandler as out (s\<lparr>res := (res s)\<lparr>statusCode := n\<rparr>\<rparr>)"
| "runHandler (CallEnd # as) out s = runHandler as out (newEnd s)"
| "runHandler (AwaitMicrotask # as) out s = enqueueMicro (HandlerResume as out) s"
| "runHandler (AwaitMacrotask # as) out s = enqueueMacro (HandlerResume as out) s"

text \<open>
  The catch block, lines 121--156, up to its await: the thrown value is boxed; with a
  scope, the event processor that adds the mechanism is registered and the boxed error is
  captured; the line that would store the error on the response (147) is a comment and
  does nothing; the status becomes 500; \<^verbatim>\<open>finishSentryWork\<close> is called.
\<close>

definition errorBridge :: "jsval \<Rightarrow> state \<Rightarrow> state" where
  "errorBridge e s =
     (let objectifiedErr = fst (objectify e (boxes s));
          s1 = s\<lparr>boxes := snd (objectify e (boxes s))\<rparr>;
          s2 = (if scope s1
                then emit (CaptureException objectifiedErr) (emit AddEventProcessor s1)
                else s1);
          s3 = s2\<lparr>res := (res s2)\<lparr>statusCode := 500,
                                    statusMessage := ''Internal Server Error''\<rparr>\<rparr>
      in finishSentryWork (ByCatch objectifiedErr) s3)"

text \<open>
  One task of the loop.
  \<^item> \<open>AfterHandler Returns\<close>: line 111, \<^verbatim>\<open>res.finished = true\<close>, and the wrapper's promise
    resolves; the host goes on in a microtask.
  \<^item> \<open>AfterHandler (Throws e)\<close>: the catch block.
  \<^item> \<open>ImmediateFinish\<close>: the \<^verbatim>\<open>setImmediate\<close> callback, lines 197--198; the promise of line 201
    resolves.
  \<^item> \<open>AfterTransactionFinished\<close>: after line 201, the flush is called.
  \<^item> \<open>AfterFlush\<close>: lines 209--212, after the await; a rejection of the flush is caught and logged, and
    either way \<^verbatim>\<open>finishSentryWork\<close> returns, so its promise resolves.
  \<^item> \<open>AfterFinishSentryWork (ByEnd n)\<close>: lines 180--183; had the awaited promise been
    rejected, the promise of the wrapped end would be rejected instead.
  \<^item> \<open>AfterFinishSentryWork (ByCatch err)\<close>: line 159, \<^verbatim>\<open>throw objectifiedErr\<close>; had the
    awaited promise been rejected, that rejection would be thrown instead.
  \<^item> \<open>HostContinue\<close>: the host after the wrapper's promise has settled. After a normal
    return it checks at once that the response is finished (comment at lines 87--89).
\<close>

fun exec :: "task \<Rightarrow> state \<Rightarrow> state" where
  "exec (HandlerResume as out) s = runHandler as out s"
| "exec (AfterHandler Returns) s =
     enqueueMicro (HostContinue None)
       (emit MarkFinished (s\<lparr>res := (res s)\<lparr>finished := True\<rparr>\<rparr>))"
| "exec (AfterHandler (Throws e)) s = errorBridge e s"
| "exec (ImmediateFinish c) s =
     (case sentryTransaction (res s) of
        Some tx \<Rightarrow>
          enqueueMicro (AfterTransactionFinished c)
            (emit (FinishCalled c (tx_httpStatus tx) (tx_finished tx))
               (s\<lparr>res := (res s)\<lparr>sentryTransaction := Some (finish tx)\<rparr>\<rparr>))
      | None \<Rightarrow> enqueueMicro (AfterTransactionFinished c) s)"
| "exec (AfterTransactionFinished c) s = callFlush c s"
| "exec (AfterFlush c (Resolved b)) s =
     enqueueMicro (AfterFinishSentryWork c None) (emit (FlushSettled c) s)"
| "exec (AfterFlush c (Rejected e)) s =
     enqueueMicro (AfterFinishSentryWork c None)
       (emit (FlushError c e) (emit (FlushSettled c) s))"
| "exec (AfterFinishSentryWork (ByEnd n) None) s =
     origEnd n (emit (FlipFinished n) (s\<lparr>res := (res s)\<lparr>finished := False\<rparr>\<rparr>))"
| "exec (AfterFinishSentryWork (ByEnd n) (Some e)) s = emit (EndRejected n e) s"
| "exec (AfterFinishSentryWork (ByCatch err) None) s =
     enqueueMicro (HostContinue (Some err)) s"
| "exec (AfterFinishSentryWork (ByCatch err) (Some e)) s =
     enqueueMicro (HostContinue (Some e)) s"
| "exec (HostContinue None) s = emit (HostCheck (finished (res s))) s"
| "exec (HostContinue (Some e)) s = emit (HostRejected e) s"

text \<open>
  One step of the loop: the next microtask if there is one, otherwise the next macrotask,
  which opens a new turn.
\<close>

definition step :: "state \<Rightarrow> state" where
  "step s =
     (case microtasks s of
        t # ts \<Rightarrow> exec t (s\<lparr>microtasks := ts\<rparr>)
      | [] \<Rightarrow>
          (case macrotasks s of
             [] \<Rightarrow> s
           | t # ts \<Rightarrow> exec t (s\<lparr>macrotasks := ts, turn := Suc (turn s)\<rparr>)))"

text \<open>
  The loop runs until both queues are empty. It comes to an end because every task leaves
  less work behind than it stood for: \<open>weight\<close> bounds the tasks that a task can still
  cause.
\<close>

fun callerWeight :: "caller \<Rightarrow> nat" where
  "callerWeight (ByEnd n) = 1"
| "callerWeight (ByCatch err) = 2"

fun actionWeight :: "haction \<Rightarrow> nat" where
  "actionWeight CallEnd = 5"
| "actionWeight a = 1"

fun weight :: "task \<Rightarrow> nat" where
  "weight (HandlerResume as out) = sum_list (map actionWeight as) + 7"
| "weight (AfterHandler out) = 6"
| "weight (ImmediateFinish c) = callerWeight c + 3"
| "weight (AfterTransactionFinished c) = callerWeight c + 2"
| "weight (AfterFlush c st) = callerWeight c + 1"
| "weight (AfterFinishSentryWork c r) = callerWeight c"
| "weight (HostContinue r) = 1"

definition pending :: "state \<Rightarrow> task list" where
  "pending s = microtasks s @ macrotasks s"

definition work :: "state \<Rightarrow> nat" where
  "work s = sum_list (map weight (pending s))"

lemma pending_update [simp]:
  "pending (s\<lparr>res := r\<rparr>) = pending s"
  "pending (s\<lparr>log := l\<rparr>) = pending s"
  "pending (s\<lparr>flushes := f\<rparr>) = pending s"
  "pending (s\<lparr>endCalls := n\<rparr>) = pending s"
  "pending (s\<lparr>boxes := n\<rparr>) = pending s"
  "pending (s\<lparr>turn := n\<rparr>) = pending s"
  "pending (emit e s) = pending s"
  by (simp_all add: pending_def emit_def)

lemma pending_enqueueMicro [simp]:
  "pending (enqueueMicro t s) = microtasks s @ t # macrotasks s"
  by (simp add: pending_def enqueueMicro_def)

lemma pending_enqueueMacro [simp]:
  "pending (enqueueMacro t s) = pending s @ [t]"
  by (simp add: pending_def enqueueMacro_def)

lemma pending_origEnd [simp]: "pending (origEnd n s) = pending s"
  by (simp add: origEnd_def)

lemma work_update [simp]:
  "work (s\<lparr>res := r\<rparr>) = work s"
  "work (s\<lparr>log := l\<rparr>) = work s"
  "work (s\<lparr>flushes := f\<rparr>) = work s"
  "work (s\<lparr>endCalls := n\<rparr>) = work s"
  "work (s\<lparr>boxes := n\<rparr>) = work s"
  "work (s\<lparr>turn := n\<rparr>) = work s"
  "work (emit e s) = work s"
  "work (origEnd n s) = work s"
  by (simp_all add: work_def)

lemma work_enqueue [simp]:
  "work (enqueueMicro t s) = work s + weight t"
  "work (enqueueMacro t s) = work s + weight t"
  by (simp_all add: work_def) (simp add: pending_def)

lemma work_callFlush: "work (callFlush c s) = work s + callerWeight c + 1"
  by (simp add: callFlush_def Let_def split: timing.split)

lemma work_finishSentryWork: "work (finishSentryWork c s) \<le> work s + callerWeight c + 3"
  by (simp add: finishSentryWork_def work_callFlush split: option.split)

lemma work_newEnd: "work (newEnd s) \<le> work s + 4"
proof -
  have "work (newEnd s)
          \<le> work (emit (EndCalled (endCalls s)) (s\<lparr>endCalls := Suc (endCalls s)\<rparr>))
             + callerWeight (ByEnd (endCalls s)) + 3"
    unfolding newEnd_def by (rule work_finishSentryWork)
  then show ?thesis by simp
qed

lemma work_runHandler:
  "work (runHandler as out s) \<le> work s + sum_list (map actionWeight as) + 6"
proof (induction as out s rule: runHandler.induct)
  case (3 as out s)
  from "3.IH" work_newEnd [of s] show ?case by simp
qed simp_all

lemma work_exec: "work (exec t s) < work s + weight t"
proof (cases "(t, s)" rule: exec.cases)
  case (1 as out s')
  with work_runHandler [of as out s] show ?thesis by simp
next
  case (3 e s')
  have "work (errorBridge e s) \<le> work s + 2 + 3"
    unfolding errorBridge_def Let_def
    by (rule order_trans [OF work_finishSentryWork]) simp
  with 3 show ?thesis by simp
next
  case (4 c s')
  then show ?thesis by (simp split: option.split)
next
  case (5 c s')
  then show ?thesis by (simp add: work_callFlush)
qed simp_all

lemma work_step: "pending s \<noteq> [] \<Longrightarrow> work (step s) < work s"
proof (cases "microtasks s")
  case Nil
  assume "pending s \<noteq> []"
  with Nil obtain t ts where m: "macrotasks s = t # ts"
    by (cases "macrotasks s") (simp_all add: pending_def)
  have "work (exec t (s\<lparr>macrotasks := ts, turn := Suc (turn s)\<rparr>))
          < work (s\<lparr>macrotasks := ts, turn := Suc (turn s)\<rparr>) + weight t"
    by (rule work_exec)
  with Nil m show ?thesis by (simp add: step_def work_def pending_def)
next
  case (Cons t ts)
  have "work (exec t (s\<lparr>microtasks := ts\<rparr>)) < work (s\<lparr>microtasks := ts\<rparr>) + weight t"
    by (rule work_exec)
  with Cons show ?thesis by (simp add: step_def work_def pending_def)
qed

function run :: "state \<Rightarrow> state" where
  "run s = (if pending s = [] then s else run (step s))"
  by pat_completeness auto
termination
  by (relation "measure work") (simp_all add: work_step)

declare run.simps [simp del]

text \<open>
  Lines 21--81, up to the call of the handler: the scope gets the event processor that
  adds the request, and with tracing enabled a transaction is started with the name built
  above, the operation \<^verbatim>\<open>http.server\<close> and the parsed trace header, and stored on the
  response (line 75). Without a scope, or with tracing off, the response carries no
  transaction.
\<close>

definition withSentry :: "bool \<Rightarrow> request \<Rightarrow> haction list \<Rightarrow> houtcome \<Rightarrow> state \<Rightarrow> state" where
  "withSentry tracing req as out s =
     (let s1 =
        (if scope s then
           (let s' = emit AddEventProcessor s
            in if tracing then
                 (let tx = startTransaction (transactionName req) ''http.server''
                             (traceparentOf req);
                      s'' = emit (StartTransaction (tx_name tx) (tx_op tx) (tx_parent tx)) s'
                  in s''\<lparr>res := (res s'')\<lparr>sentryTransaction := Some tx\<rparr>\<rparr>)
               else s')
         else s)
      in runHandler as out s1)"

text \<open>
  A request: a fresh response (status 200, not finished, nothing attached), empty queues,
  and the loop run to its end.
\<close>

definition initial :: "bool \<Rightarrow> (timing \<times> settle) list \<Rightarrow> state" where
  "initial sc fl =
     \<lparr>res = \<lparr>statusCode = 200, statusMessage = [], finished = False,
             sentryTransaction = None, sentryCapturedError = None\<rparr>,
      scope = sc, microtasks = [], macrotasks = [], turn = 0, log = [],
      flushes = fl, endCalls = 0, boxes = 0\<rparr>"

definition serve ::
  "bool \<Rightarrow> bool \<Rightarrow> (timing \<times> settle) list \<Rightarrow> request \<Rightarrow> haction list \<Rightarrow> houtcome \<Rightarrow> state" where
  "serve sc tracing fl req as out = run (withSentry tracing req as out (initial sc fl))"

text \<open>
  \<open>precededBy P Q xs\<close>: in \<open>xs\<close> no element with \<open>Q\<close> comes before the first element
  with \<open>P\<close>.
\<close>

fun precededBy :: "('a \<Rightarrow> bool) \<Rightarrow> ('a \<Rightarrow> bool) \<Rightarrow> 'a list \<Rightarrow> bool" where
  "precededBy P Q [] = True"
| "precededBy P Q (x # xs) = (P x \<or> (\<not> Q x \<and> precededBy P Q xs))"

text \<open>A request used in the examples: the path and the query of the specification.\<close>

definition exampleRequest :: request where
  "exampleRequest =
     \<lparr>req_method = Some ''GET'', req_url = Some ''/a/5/b/5'',
      req_query = Some [(''x'', QStr ''5''), (''y'', QStr ''5'')],
      req_sentry_trace = None\<rparr>"


section \<open>Observations on events, tasks and states\<close>

text \<open>
  The theorems below speak about the events of a request and about the tasks that are
  still waiting. This section names what they observe; nothing here is part of the
  program.
\<close>

subsection \<open>Events\<close>

text \<open>
  Faults: the original end method found the response finished, or the promise of the
  wrapped end method was rejected.
\<close>

fun isFault :: "event \<Rightarrow> bool" where
  "isFault (WriteAfterEnd n) = True"
| "isFault (EndRejected n e) = True"
| "isFault ev = False"

text \<open>
  What the host sees of the wrapper, a capture of an error, a call of
  \<^verbatim>\<open>transaction.finish\<close> (\<open>isEffectiveFinish\<close>: one that found the transaction not yet
  finished), the logged rejection of a flush.
\<close>

fun isHostEvent :: "event \<Rightarrow> bool" where
  "isHostEvent (HostCheck b) = True"
| "isHostEvent (HostRejected v) = True"
| "isHostEvent e = False"

fun isCapture :: "event \<Rightarrow> bool" where
  "isCapture (CaptureException v) = True"
| "isCapture e = False"

fun isFinish :: "event \<Rightarrow> bool" where
  "isFinish (FinishCalled c st f) = True"
| "isFinish e = False"

fun isEffectiveFinish :: "event \<Rightarrow> bool" where
  "isEffectiveFinish (FinishCalled c st f) = (\<not> f)"
| "isEffectiveFinish e = False"

fun isFlushError :: "event \<Rightarrow> bool" where
  "isFlushError (FlushError c v) = True"
| "isFlushError e = False"

text \<open>
  The events of one call of \<^verbatim>\<open>finishSentryWork\<close>: the copy of the status, the call of
  \<^verbatim>\<open>finish\<close>, and what the caller does when the call has returned: the wrapped end flips
  the flag and runs the original end, the catch block rethrows.
\<close>

fun isSetHttpStatus :: "caller \<Rightarrow> event \<Rightarrow> bool" where
  "isSetHttpStatus c (SetHttpStatus c' n) = (c' = c)"
| "isSetHttpStatus c e = False"

fun isFinishCalled :: "caller \<Rightarrow> event \<Rightarrow> bool" where
  "isFinishCalled c (FinishCalled c' st f) = (c' = c)"
| "isFinishCalled c e = False"

fun completes :: "caller \<Rightarrow> event \<Rightarrow> bool" where
  "completes c (FlipFinished n) = (c = ByEnd n)"
| "completes c (OrigEnd n) = (c = ByEnd n)"
| "completes c (HostRejected v) = (c = ByCatch v)"
| "completes c e = False"

text \<open>
  \<open>okFinish\<close>: whatever the catch block copies to the transaction or finds there when it
  calls \<^verbatim>\<open>finish\<close> is the status 500.
\<close>

fun isCatchCaller :: "caller \<Rightarrow> bool" where
  "isCatchCaller (ByCatch v) = True"
| "isCatchCaller (ByEnd n) = False"

fun okFinish :: "event \<Rightarrow> bool" where
  "okFinish (FinishCalled c st f) = (isCatchCaller c \<longrightarrow> st = Some 500)"
| "okFinish (SetHttpStatus c k) = (isCatchCaller c \<longrightarrow> k = 500)"
| "okFinish e = True"

text \<open>
  The rejections among the behaviours of the flush.
\<close>

fun isRejected :: "settle \<Rightarrow> bool" where
  "isRejected (Rejected v) = True"
| "isRejected (Resolved b) = False"

definition rejections :: "(timing \<times> settle) list \<Rightarrow> nat" where
  "rejections fl = length (filter (\<lambda>b. isRejected (snd b)) fl)"

subsection \<open>Tasks and states\<close>

text \<open>
  The waiting tasks as a multiset, the call of \<^verbatim>\<open>finishSentryWork\<close> that a task
  belongs to, and whether the response carries a transaction.
\<close>

definition tasks :: "state \<Rightarrow> task multiset" where
  "tasks s = mset (pending s)"

fun taskCaller :: "task \<Rightarrow> caller option" where
  "taskCaller (ImmediateFinish c) = Some c"
| "taskCaller (AfterTransactionFinished c) = Some c"
| "taskCaller (AfterFlush c st) = Some c"
| "taskCaller (AfterFinishSentryWork c r) = Some c"
| "taskCaller t = None"

definition hasTx :: "state \<Rightarrow> bool" where
  "hasTx s \<longleftrightarrow> sentryTransaction (res s) \<noteq> None"

definition txFinished :: "state \<Rightarrow> bool" where
  "txFinished s \<longleftrightarrow> (case sentryTransaction (res s) of None \<Rightarrow> False | Some tx \<Rightarrow> tx_finished tx)"

text \<open>
  The state from which the loop takes a task \<open>t\<close>: \<open>s'\<close> is \<open>s\<close> without \<open>t\<close>, possibly
  in the next turn.
\<close>

definition dequeued :: "task \<Rightarrow> state \<Rightarrow> state \<Rightarrow> bool" where
  "dequeued t s s' \<longleftrightarrow>
     pending s = t # pending s' \<and> res s' = res s \<and> scope s' = scope s \<and> log s' = log s
     \<and> flushes s' = flushes s \<and> endCalls s' = endCalls s \<and> boxes s' = boxes s"

text \<open>
  What a call of \<^verbatim>\<open>finishSentryWork\<close> leaves behind when it reaches its first await:
  the task that waits, the event that records its first action, and the response with the
  status copied to the transaction. \<open>nextSettle\<close> is how the next flush will settle.
\<close>

definition nextSettle :: "state \<Rightarrow> settle" where
  "nextSettle s = snd (case flushes s of [] \<Rightarrow> (LaterTurn, Resolved True) | x # _ \<Rightarrow> x)"

definition firstTask :: "caller \<Rightarrow> state \<Rightarrow> task" where
  "firstTask c s =
     (if sentryTransaction (res s) = None then AfterFlush c (nextSettle s)
      else ImmediateFinish c)"

definition firstEvent :: "caller \<Rightarrow> state \<Rightarrow> event" where
  "firstEvent c s =
     (if sentryTransaction (res s) = None then FlushCalled c 2000
      else SetHttpStatus c (statusCode (res s)))"

definition copyStatus :: "response \<Rightarrow> response" where
  "copyStatus r = r\<lparr>sentryTransaction := map_option (setHttpStatus (statusCode r)) (sentryTransaction r)\<rparr>"

text \<open>
  Lines 36--77 of the wrapper, before the handler is called.
\<close>

definition entered :: "bool \<Rightarrow> request \<Rightarrow> state \<Rightarrow> state" where
  "entered tracing req s =
     (if scope s then
        (let s' = emit AddEventProcessor s
         in if tracing then
              (let tx = startTransaction (transactionName req) ''http.server''
                          (traceparentOf req);
                   s'' = emit (StartTransaction (tx_name tx) (tx_op tx) (tx_parent tx)) s'
               in s''\<lparr>res := (res s'')\<lparr>sentryTransaction := Some tx\<rparr>\<rparr>)
            else s')
      else s)"

subsection \<open>Invariants\<close>

text \<open>
  \<open>sound\<close>: no waiting task carries a rejection of \<^verbatim>\<open>finishSentryWork\<close>, and no fault
  has happened.
\<close>

fun okTask :: "task \<Rightarrow> bool" where
  "okTask (AfterFinishSentryWork c (Some e)) = False"
| "okTask t = True"

definition sound :: "state \<Rightarrow> bool" where
  "sound s \<longleftrightarrow> list_all okTask (pending s) \<and> \<not> list_ex isFault (events s)"

text \<open>
  \<open>once\<close>: the \<open>n\<close>-th call of the wrapped end, if it has been made, either has one task
  waiting or has run the original end once.
\<close>

definition inFlight :: "caller \<Rightarrow> state \<Rightarrow> nat" where
  "inFlight c s = size (filter_mset (\<lambda>t. taskCaller t = Some c) (tasks s))"

definition once :: "state \<Rightarrow> bool" where
  "once s \<longleftrightarrow>
     (\<forall>n. inFlight (ByEnd n) s + count_list (events s) (OrigEnd n)
            = (if n < endCalls s then 1 else 0))"

text \<open>
  \<open>ordered\<close>: the events of a call of \<^verbatim>\<open>finishSentryWork\<close> come in the order of the
  code, and every waiting task of the call has its earlier events behind it.
\<close>

fun ready :: "caller \<Rightarrow> event list \<Rightarrow> bool \<Rightarrow> task \<Rightarrow> bool" where
  "ready c evs h (ImmediateFinish c') =
     (h \<and> (c' = c \<longrightarrow> (\<exists>e \<in> set evs. isSetHttpStatus c e)))"
| "ready c evs h (AfterTransactionFinished c') =
     (c' = c \<longrightarrow> h \<longrightarrow> (\<exists>e \<in> set evs. isFinishCalled c e))"
| "ready c evs h (AfterFlush c' st) = (c' = c \<longrightarrow> FlushCalled c 2000 \<in> set evs)"
| "ready c evs h (AfterFinishSentryWork c' r) = (c' = c \<longrightarrow> FlushSettled c \<in> set evs)"
| "ready c evs h (HostContinue (Some v)) = (c = ByCatch v \<longrightarrow> FlushSettled c \<in> set evs)"
| "ready c evs h t = True"

definition ordered :: "caller \<Rightarrow> state \<Rightarrow> bool" where
  "ordered c s \<longleftrightarrow>
     precededBy (\<lambda>e. e = FlushSettled c) (completes c) (events s)
     \<and> precededBy (\<lambda>e. e = FlushCalled c 2000) (\<lambda>e. e = FlushSettled c) (events s)
     \<and> (hasTx s \<longrightarrow> precededBy (isFinishCalled c) (\<lambda>e. e = FlushCalled c 2000) (events s))
     \<and> precededBy (isSetHttpStatus c) (isFinishCalled c) (events s)
     \<and> (\<forall>t \<in># tasks s. ready c (events s) (hasTx s) t)"

text \<open>
  \<open>called\<close>: the calls of the wrapped end made so far and those that the handler still
  has to make add up to the calls in the handler's program.
\<close>

fun callsLeft :: "task \<Rightarrow> nat" where
  "callsLeft (HandlerResume as out) = count_list as CallEnd"
| "callsLeft t = 0"

definition called :: "nat \<Rightarrow> state \<Rightarrow> bool" where
  "called k s \<longleftrightarrow> endCalls s + sum_mset (image_mset callsLeft (tasks s)) = k"

definition inv :: "nat \<Rightarrow> caller \<Rightarrow> state \<Rightarrow> bool" where
  "inv k c s \<longleftrightarrow> sound s \<and> once s \<and> ordered c s \<and> called k s"

text \<open>
  The wrapper itself goes from the handler to the return or the catch block and on to
  the host. \<open>token\<close>: exactly one of these is waiting or the host has seen the outcome.
  \<open>wrapperOks\<close>: the tasks and the host's events agree with the outcome of the handler;
  \<open>errOf\<close> is the error that the catch block rethrows. \<open>phase\<close>: while the handler runs
  nothing has been boxed or captured; afterwards the captures are those of the catch block
  and a failed request has the status 500. \<open>checkable\<close>: when the host is about to check,
  the response is marked finished.
\<close>

fun isHandlerTask :: "task \<Rightarrow> bool" where
  "isHandlerTask (HandlerResume as out) = True"
| "isHandlerTask (AfterHandler out) = True"
| "isHandlerTask t = False"

fun isBridgeTask :: "task \<Rightarrow> bool" where
  "isBridgeTask (HostContinue r) = True"
| "isBridgeTask (ImmediateFinish c) = isCatchCaller c"
| "isBridgeTask (AfterTransactionFinished c) = isCatchCaller c"
| "isBridgeTask (AfterFlush c st) = isCatchCaller c"
| "isBridgeTask (AfterFinishSentryWork c r) = isCatchCaller c"
| "isBridgeTask t = False"

fun errOf :: "houtcome \<Rightarrow> jsval option" where
  "errOf Returns = None"
| "errOf (Throws e) = Some (fst (objectify e 0))"

fun callerOk :: "houtcome \<Rightarrow> caller \<Rightarrow> bool" where
  "callerOk out (ByCatch v) = (errOf out = Some v)"
| "callerOk out (ByEnd n) = True"

fun wrapperOk :: "houtcome \<Rightarrow> task \<Rightarrow> bool" where
  "wrapperOk out (HandlerResume as out') = (out' = out)"
| "wrapperOk out (AfterHandler out') = (out' = out)"
| "wrapperOk out (HostContinue r) = (errOf out = r)"
| "wrapperOk out (ImmediateFinish c) = callerOk out c"
| "wrapperOk out (AfterTransactionFinished c) = callerOk out c"
| "wrapperOk out (AfterFlush c st) = callerOk out c"
| "wrapperOk out (AfterFinishSentryWork c r) = callerOk out c"

fun hostEventOk :: "houtcome \<Rightarrow> event \<Rightarrow> bool" where
  "hostEventOk out (HostCheck b) = (errOf out = None \<and> b)"
| "hostEventOk out (HostRejected v) = (errOf out = Some v)"
| "hostEventOk out e = True"

definition handlers :: "state \<Rightarrow> nat" where
  "handlers s = size (filter_mset isHandlerTask (tasks s))"

definition bridges :: "state \<Rightarrow> nat" where
  "bridges s = size (filter_mset isBridgeTask (tasks s))"

definition captured :: "houtcome \<Rightarrow> bool \<Rightarrow> event list" where
  "captured out sc =
     (case errOf out of
        None \<Rightarrow> []
      | Some v \<Rightarrow> if sc then [CaptureException v] else [])"

definition token :: "nat \<Rightarrow> state \<Rightarrow> bool" where
  "token held s \<longleftrightarrow>
     held + handlers s + bridges s + length (filter isHostEvent (events s)) = 1"

definition wrapperOks :: "houtcome \<Rightarrow> state \<Rightarrow> bool" where
  "wrapperOks out s \<longleftrightarrow>
     (\<forall>t \<in># tasks s. wrapperOk out t) \<and> (\<forall>e \<in> set (events s). hostEventOk out e)"

definition before :: "state \<Rightarrow> bool" where
  "before s \<longleftrightarrow> boxes s = 0 \<and> filter isCapture (events s) = []"

definition after :: "houtcome \<Rightarrow> state \<Rightarrow> bool" where
  "after out s \<longleftrightarrow>
     filter isCapture (events s) = captured out (scope s)
     \<and> (errOf out \<noteq> None \<longrightarrow>
           statusCode (res s) = 500 \<and> statusMessage (res s) = ''Internal Server Error'')"

definition checkable :: "state \<Rightarrow> bool" where
  "checkable s \<longleftrightarrow> (HostContinue None \<in># tasks s \<longrightarrow> finished (res s))"

definition phase :: "houtcome \<Rightarrow> state \<Rightarrow> bool" where
  "phase out s \<longleftrightarrow> (if 0 < handlers s then before s else after out s)"

definition wrapperInv :: "houtcome \<Rightarrow> state \<Rightarrow> bool" where
  "wrapperInv out s \<longleftrightarrow> token 0 s \<and> wrapperOks out s \<and> phase out s \<and> checkable s"

text \<open>
  \<open>failed\<close>: after the catch block the transaction carries the status 500.
  \<open>finishedOnce\<close>: the transaction is finished exactly when a call of \<^verbatim>\<open>finish\<close> has been
  effective, and only one is. \<open>logged\<close>: every rejection of a flush is still to come, is on
  its way to the catch of line 210, or has been logged. \<open>reported\<close>: with a scope, the error
  is captured before the host sees it.
\<close>

definition failed :: "houtcome \<Rightarrow> state \<Rightarrow> bool" where
  "failed out s \<longleftrightarrow>
     (\<forall>e \<in> set (events s). okFinish e)
     \<and> (handlers s = 0 \<longrightarrow> errOf out \<noteq> None \<longrightarrow>
          (\<forall>tx. sentryTransaction (res s) = Some tx \<longrightarrow> tx_httpStatus tx = Some 500))"

definition finishedOnce :: "state \<Rightarrow> bool" where
  "finishedOnce s \<longleftrightarrow>
     length (filter isEffectiveFinish (events s)) = (if txFinished s then 1 else 0)
     \<and> (list_ex isFinish (events s) \<longrightarrow> txFinished s)"

fun rejecting :: "task \<Rightarrow> bool" where
  "rejecting (AfterFlush c st) = isRejected st"
| "rejecting t = False"

definition logged :: "nat \<Rightarrow> state \<Rightarrow> bool" where
  "logged k s \<longleftrightarrow>
     rejections (flushes s) + size (filter_mset rejecting (tasks s))
       + length (filter isFlushError (events s)) = k"

definition inv2 :: "houtcome \<Rightarrow> nat \<Rightarrow> state \<Rightarrow> bool" where
  "inv2 out k s \<longleftrightarrow> sound s \<and> wrapperInv out s \<and> failed out s \<and> finishedOnce s \<and> logged k s"

definition reported :: "houtcome \<Rightarrow> state \<Rightarrow> bool" where
  "reported out s \<longleftrightarrow>
     (scope s \<longrightarrow> errOf out \<noteq> None \<longrightarrow> precededBy isCapture isHostEvent (events s))"

text \<open>
  \<open>deferred\<close>: with a transaction, the tasks of a call of the wrapped end run in a later
  turn than the call, and so does the flip of the flag.
\<close>

definition knownCall :: "nat \<Rightarrow> nat \<Rightarrow> (nat \<times> event) list \<Rightarrow> bool" where
  "knownCall k n l \<longleftrightarrow> (\<exists>j < k. (j, EndCalled n) \<in> set l)"

fun flipOk :: "(nat \<times> event) list \<Rightarrow> nat \<times> event \<Rightarrow> bool" where
  "flipOk l (k, FlipFinished n) = knownCall k n l"
| "flipOk l x = True"

fun calledBefore :: "nat \<Rightarrow> (nat \<times> event) list \<Rightarrow> task \<Rightarrow> bool" where
  "calledBefore k l (ImmediateFinish (ByEnd n)) = knownCall k n l"
| "calledBefore k l (AfterTransactionFinished (ByEnd n)) = knownCall k n l"
| "calledBefore k l (AfterFlush (ByEnd n) st) = knownCall k n l"
| "calledBefore k l (AfterFinishSentryWork (ByEnd n) r) = knownCall k n l"
| "calledBefore k l t = True"

definition deferred :: "state \<Rightarrow> bool" where
  "deferred s \<longleftrightarrow>
     hasTx s
     \<and> (\<forall>x \<in> set (log s). flipOk (log s) x)
     \<and> (\<forall>t \<in> set (microtasks s). calledBefore (turn s) (log s) t)
     \<and> (\<forall>t \<in> set (macrotasks s). calledBefore (Suc (turn s)) (log s) t)"


text \<open>
  \<open>delegated\<close>: the runs of the original end and the calls of the wrapped end still under
  way add up to the calls made.
\<close>

fun isOrigEnd :: "event \<Rightarrow> bool" where
  "isOrigEnd (OrigEnd n) = True"
| "isOrigEnd e = False"

fun isEndTask :: "task \<Rightarrow> bool" where
  "isEndTask (ImmediateFinish c) = (\<not> isCatchCaller c)"
| "isEndTask (AfterTransactionFinished c) = (\<not> isCatchCaller c)"
| "isEndTask (AfterFlush c st) = (\<not> isCatchCaller c)"
| "isEndTask (AfterFinishSentryWork c r) = (\<not> isCatchCaller c)"
| "isEndTask t = False"


section \<open>Invariants of the loop\<close>

lemma step_dequeued:
  assumes "pending s \<noteq> []"
  shows "\<exists>t s'. dequeued t s s' \<and> step s = exec t s'"
proof (cases "microtasks s")
  case Nil
  with assms obtain t ts where m: "macrotasks s = t # ts"
    by (cases "macrotasks s") (simp_all add: pending_def)
  have "dequeued t s (s\<lparr>macrotasks := ts, turn := Suc (turn s)\<rparr>)"
    using Nil m by (simp add: dequeued_def pending_def)
  moreover have "step s = exec t (s\<lparr>macrotasks := ts, turn := Suc (turn s)\<rparr>)"
    using Nil m by (simp add: step_def)
  ultimately show ?thesis by blast
next
  case (Cons t ts)
  have "dequeued t s (s\<lparr>microtasks := ts\<rparr>)"
    using Cons by (simp add: dequeued_def pending_def)
  moreover have "step s = exec t (s\<lparr>microtasks := ts\<rparr>)"
    using Cons by (simp add: step_def)
  ultimately show ?thesis by blast
qed

lemma run_pending [simp]: "pending (run s) = []"
  by (induction s rule: run.induct) (subst run.simps, simp)

lemma run_invariant:
  assumes "I s" and "\<And>t s s'. I s \<Longrightarrow> dequeued t s s' \<Longrightarrow> I (exec t s')"
  shows "I (run s)"
  using assms(1)
proof (induction s rule: run.induct)
  case (1 s)
  show ?case
  proof (cases "pending s = []")
    case True
    with 1(2) show ?thesis by (subst run.simps) simp
  next
    case False
    from step_dequeued [OF False] obtain t s' where d: "dequeued t s s'" "step s = exec t s'"
      by blast
    from assms(2) [OF 1(2) d(1)] d(2) have "I (step s)" by simp
    from "1.IH" [OF False this] False show ?thesis by (subst run.simps) simp
  qed
qed

text \<open>Invariant \<open>sound\<close>: nothing is rejected, nothing faults.\<close>

lemmas ops = emit_def enqueueMicro_def enqueueMacro_def events_def pending_def

lemma sound_callFlush: "sound s \<Longrightarrow> sound (callFlush c s)"
  by (simp add: sound_def callFlush_def Let_def ops split: timing.split)

lemma sound_finishSentryWork: "sound s \<Longrightarrow> sound (finishSentryWork c s)"
  using sound_callFlush [of s c]
  by (simp add: finishSentryWork_def split: option.split) (simp add: sound_def ops)

lemma sound_newEnd: "sound s \<Longrightarrow> sound (newEnd s)"
  unfolding newEnd_def by (rule sound_finishSentryWork) (simp add: sound_def ops)

lemma sound_runHandler: "sound s \<Longrightarrow> sound (runHandler as out s)"
proof (induction as out s rule: runHandler.induct)
  case (3 as out s)
  then show ?case by (simp add: sound_newEnd)
qed (simp_all add: sound_def ops)

lemma sound_exec:
  assumes "sound s" "dequeued t s s'"
  shows "sound (exec t s')"
proof -
  from assms have s': "sound s'" and t: "okTask t"
    by (simp_all add: sound_def dequeued_def events_def)
  show ?thesis
  proof (cases "(t, s')" rule: exec.cases)
    case (1 as out s0)
    with s' show ?thesis by (simp add: sound_runHandler)
  next
    case (3 e s0)
    have "sound (errorBridge e s')"
      unfolding errorBridge_def Let_def
      by (rule sound_finishSentryWork) (use s' in \<open>simp add: sound_def ops\<close>)
    with 3 show ?thesis by simp
  next
    case (5 c s0)
    with s' show ?thesis by (simp add: sound_callFlush)
  next
    case (9 n e s0)
    with t show ?thesis by simp
  next
    case (11 err e s0)
    with t show ?thesis by simp
  qed (use s' in \<open>simp_all add: sound_def ops origEnd_def split: option.split\<close>)
qed

lemma sound_initial: "sound (withSentry tracing req as out (initial sc fl))"
  unfolding withSentry_def Let_def
  by (rule sound_runHandler) (simp add: sound_def ops initial_def)

lemma sound_serve: "sound (serve sc tracing fl req as out)"
  unfolding serve_def using sound_initial sound_exec by (rule run_invariant)

text \<open>Frame lemmas: what each operation does to the tasks, the events and the rest.\<close>

lemma dequeued_tasks: "dequeued t s s' \<Longrightarrow> tasks s = add_mset t (tasks s')"
  by (simp add: dequeued_def tasks_def)

lemma dequeued_fields:
  "dequeued t s s' \<Longrightarrow> events s' = events s"
  "dequeued t s s' \<Longrightarrow> res s' = res s"
  "dequeued t s s' \<Longrightarrow> scope s' = scope s"
  "dequeued t s s' \<Longrightarrow> endCalls s' = endCalls s"
  "dequeued t s s' \<Longrightarrow> boxes s' = boxes s"
  by (simp_all add: dequeued_def events_def)

lemma frame_emit [simp]:
  "tasks (emit e s) = tasks s"
  "events (emit e s) = events s @ [e]"
  "res (emit e s) = res s"
  "scope (emit e s) = scope s"
  "endCalls (emit e s) = endCalls s"
  "boxes (emit e s) = boxes s"
  "flushes (emit e s) = flushes s"
  "nextSettle (emit e s) = nextSettle s"
  by (simp_all add: tasks_def nextSettle_def ops)

lemma frame_enqueueMicro [simp]:
  "tasks (enqueueMicro t s) = add_mset t (tasks s)"
  "events (enqueueMicro t s) = events s"
  "res (enqueueMicro t s) = res s"
  "scope (enqueueMicro t s) = scope s"
  "endCalls (enqueueMicro t s) = endCalls s"
  "boxes (enqueueMicro t s) = boxes s"
  "flushes (enqueueMicro t s) = flushes s"
  by (simp_all add: tasks_def ops)

lemma frame_enqueueMacro [simp]:
  "tasks (enqueueMacro t s) = add_mset t (tasks s)"
  "events (enqueueMacro t s) = events s"
  "res (enqueueMacro t s) = res s"
  "scope (enqueueMacro t s) = scope s"
  "endCalls (enqueueMacro t s) = endCalls s"
  "boxes (enqueueMacro t s) = boxes s"
  "flushes (enqueueMacro t s) = flushes s"
  by (simp_all add: tasks_def ops)

lemma frame_update [simp]:
  "tasks (s\<lparr>res := r\<rparr>) = tasks s"
  "tasks (s\<lparr>endCalls := n\<rparr>) = tasks s"
  "tasks (s\<lparr>boxes := n\<rparr>) = tasks s"
  "tasks (s\<lparr>flushes := f\<rparr>) = tasks s"
  "events (s\<lparr>res := r\<rparr>) = events s"
  "events (s\<lparr>endCalls := n\<rparr>) = events s"
  "events (s\<lparr>boxes := n\<rparr>) = events s"
  "events (s\<lparr>flushes := f\<rparr>) = events s"
  "nextSettle (s\<lparr>res := r\<rparr>) = nextSettle s"
  "nextSettle (s\<lparr>endCalls := n\<rparr>) = nextSettle s"
  "nextSettle (s\<lparr>boxes := n\<rparr>) = nextSettle s"
  by (simp_all add: tasks_def nextSettle_def ops)

lemma frame_callFlush [simp]:
  "tasks (callFlush c s) = add_mset (AfterFlush c (nextSettle s)) (tasks s)"
  "events (callFlush c s) = events s @ [FlushCalled c 2000]"
  "res (callFlush c s) = res s"
  "scope (callFlush c s) = scope s"
  "endCalls (callFlush c s) = endCalls s"
  "boxes (callFlush c s) = boxes s"
  by (simp_all add: callFlush_def Let_def nextSettle_def split: timing.split)

lemma frame_finishSentryWork [simp]:
  "tasks (finishSentryWork c s) = add_mset (firstTask c s) (tasks s)"
  "events (finishSentryWork c s) = events s @ [firstEvent c s]"
  "res (finishSentryWork c s) = copyStatus (res s)"
  "scope (finishSentryWork c s) = scope s"
  "endCalls (finishSentryWork c s) = endCalls s"
  "boxes (finishSentryWork c s) = boxes s"
  by (simp_all add: finishSentryWork_def firstTask_def firstEvent_def copyStatus_def
      split: option.split)

lemma frame_first [simp]:
  "firstTask c (emit e s) = firstTask c s"
  "firstTask c (s\<lparr>endCalls := n\<rparr>) = firstTask c s"
  "firstTask c (s\<lparr>boxes := n\<rparr>) = firstTask c s"
  "firstEvent c (emit e s) = firstEvent c s"
  "firstEvent c (s\<lparr>endCalls := n\<rparr>) = firstEvent c s"
  "firstEvent c (s\<lparr>boxes := n\<rparr>) = firstEvent c s"
  by (simp_all add: firstTask_def firstEvent_def)

lemma frame_newEnd [simp]:
  "tasks (newEnd s) = add_mset (firstTask (ByEnd (endCalls s)) s) (tasks s)"
  "events (newEnd s) = events s @ [EndCalled (endCalls s), firstEvent (ByEnd (endCalls s)) s]"
  "res (newEnd s) = copyStatus (res s)"
  "scope (newEnd s) = scope s"
  "endCalls (newEnd s) = Suc (endCalls s)"
  "boxes (newEnd s) = boxes s"
  by (simp_all add: newEnd_def)

lemma frame_origEnd [simp]:
  "tasks (origEnd n s) = tasks s"
  "scope (origEnd n s) = scope s"
  "endCalls (origEnd n s) = endCalls s"
  "boxes (origEnd n s) = boxes s"
  by (simp_all add: origEnd_def)

lemma frame_errorBridge [simp]:
  "scope (errorBridge e s) = scope s"
  "endCalls (errorBridge e s) = endCalls s"
  "boxes (errorBridge e s) = snd (objectify e (boxes s))"
  "sentryTransaction (res (errorBridge e s))
     = map_option (setHttpStatus 500) (sentryTransaction (res s))"
  "statusCode (res (errorBridge e s)) = 500"
  "statusMessage (res (errorBridge e s)) = ''Internal Server Error''"
  "finished (res (errorBridge e s)) = finished (res s)"
  "sentryCapturedError (res (errorBridge e s)) = sentryCapturedError (res s)"
  by (simp_all add: errorBridge_def Let_def copyStatus_def)

lemma tasks_errorBridge [simp]:
  "tasks (errorBridge e s)
     = add_mset (firstTask (ByCatch (fst (objectify e (boxes s)))) s) (tasks s)"
  by (simp add: errorBridge_def Let_def) (simp add: firstTask_def nextSettle_def ops)

lemma events_errorBridge [simp]:
  "events (errorBridge e s)
     = events s
       @ (if scope s then [AddEventProcessor, CaptureException (fst (objectify e (boxes s)))]
          else [])
       @ [if sentryTransaction (res s) = None
          then FlushCalled (ByCatch (fst (objectify e (boxes s)))) 2000
          else SetHttpStatus (ByCatch (fst (objectify e (boxes s)))) 500]"
  by (simp add: errorBridge_def Let_def) (simp add: firstEvent_def)

text \<open>Invariant \<open>once\<close>: every call of the wrapped end is on its way or has run the original end once.\<close>

lemma taskCaller_firstTask [simp]: "taskCaller (firstTask c s) = Some c"
  by (simp add: firstTask_def)

lemma sound_frame:
  "sound s \<longleftrightarrow> (\<forall>t \<in># tasks s. okTask t) \<and> (\<forall>e \<in> set (events s). \<not> isFault e)"
  by (simp add: sound_def tasks_def list_all_iff list_ex_iff)

lemma firstEvent_not_OrigEnd [simp]: "firstEvent c s \<noteq> OrigEnd n"
  by (simp add: firstEvent_def)

lemma inFlight_frame [simp]:
  "inFlight c (emit e s) = inFlight c s"
  "inFlight c (enqueueMicro t s) = inFlight c s + (if taskCaller t = Some c then 1 else 0)"
  "inFlight c (enqueueMacro t s) = inFlight c s + (if taskCaller t = Some c then 1 else 0)"
  "inFlight c (s\<lparr>res := r\<rparr>) = inFlight c s"
  "inFlight c (s\<lparr>endCalls := n\<rparr>) = inFlight c s"
  "inFlight c (s\<lparr>boxes := n\<rparr>) = inFlight c s"
  "inFlight c (callFlush c' s) = inFlight c s + (if c' = c then 1 else 0)"
  "inFlight c (finishSentryWork c' s) = inFlight c s + (if c' = c then 1 else 0)"
  "inFlight c (newEnd s) = inFlight c s + (if ByEnd (endCalls s) = c then 1 else 0)"
  "inFlight c (origEnd n s) = inFlight c s"
  "inFlight c (errorBridge v s)
     = inFlight c s + (if ByCatch (fst (objectify v (boxes s))) = c then 1 else 0)"
  by (simp_all add: inFlight_def)

lemma once_newEnd: "once s \<Longrightarrow> once (newEnd s)"
  by (auto simp: once_def)

lemma once_runHandler: "once s \<Longrightarrow> once (runHandler as out s)"
proof (induction as out s rule: runHandler.induct)
  case (3 as out s)
  then show ?case by (simp add: once_newEnd)
qed (simp_all add: once_def)

lemma events_origEnd_open [simp]:
  "events (origEnd n (emit (FlipFinished n) (s\<lparr>res := (res s)\<lparr>finished := False\<rparr>\<rparr>)))
     = events s @ [FlipFinished n, OrigEnd n]"
  by (simp add: origEnd_def)

lemma once_exec:
  assumes "once s" "sound s" "dequeued t s s'"
  shows "once (exec t s')"
proof -
  from assms have t: "okTask t" by (simp add: sound_frame dequeued_tasks)
  note d = dequeued_tasks [OF assms(3)] dequeued_fields [OF assms(3)]
  have c: "inFlight (ByEnd n) s' + (if taskCaller t = Some (ByEnd n) then 1 else 0)
             + count_list (events s') (OrigEnd n) = (if n < endCalls s' then 1 else 0)" for n
    using assms(1) [unfolded once_def, rule_format, of n] d
    by (cases "taskCaller t = Some (ByEnd n)") (simp_all add: inFlight_def)
  have same: "inFlight (ByEnd n) s' = 0 \<and> count_list (events s') (OrigEnd n) = 0
                \<and> n < endCalls s'" if "taskCaller t = Some (ByEnd n)" for n
    using c [of n] that by (simp split: if_splits)
  have other: "inFlight (ByEnd n) s' + count_list (events s') (OrigEnd n)
                 = (if n < endCalls s' then 1 else 0)" if "taskCaller t \<noteq> Some (ByEnd n)" for n
    using c [of n] that by simp
  have s': "once s'" if "taskCaller t = None"
    using other that by (simp add: once_def)
  show ?thesis
  proof (cases "(t, s')" rule: exec.cases)
    case (1 as out s0)
    with s' show ?thesis by (simp add: once_runHandler)
  next
    case (2 s0)
    with s' show ?thesis by (simp add: once_def)
  next
    case (3 e s0)
    with s' show ?thesis by (simp add: once_def)
  next
    case (4 c0 s0)
    then have [simp]: "t = ImmediateFinish c0" "s0 = s'" by simp_all
    show ?thesis unfolding once_def
    proof
      fix n show "inFlight (ByEnd n) (exec t s') + count_list (events (exec t s')) (OrigEnd n)
                  = (if n < endCalls (exec t s') then 1 else 0)"
        using same [of n] other [of n] by (cases "c0 = ByEnd n") (auto split: option.split if_splits)
    qed
  next
    case (5 c0 s0)
    then have [simp]: "t = AfterTransactionFinished c0" "s0 = s'" by simp_all
    show ?thesis unfolding once_def
    proof
      fix n show "inFlight (ByEnd n) (exec t s') + count_list (events (exec t s')) (OrigEnd n)
                  = (if n < endCalls (exec t s') then 1 else 0)"
        using same [of n] other [of n] by (cases "c0 = ByEnd n") (auto split: if_splits)
    qed
  next
    case (6 c0 b s0)
    then have [simp]: "t = AfterFlush c0 (Resolved b)" "s0 = s'" by simp_all
    show ?thesis unfolding once_def
    proof
      fix n show "inFlight (ByEnd n) (exec t s') + count_list (events (exec t s')) (OrigEnd n)
                  = (if n < endCalls (exec t s') then 1 else 0)"
        using same [of n] other [of n] by (cases "c0 = ByEnd n") (auto split: if_splits)
    qed
  next
    case (7 c0 e s0)
    then have [simp]: "t = AfterFlush c0 (Rejected e)" "s0 = s'" by simp_all
    show ?thesis unfolding once_def
    proof
      fix n show "inFlight (ByEnd n) (exec t s') + count_list (events (exec t s')) (OrigEnd n)
                  = (if n < endCalls (exec t s') then 1 else 0)"
        using same [of n] other [of n] by (cases "c0 = ByEnd n") (auto split: if_splits)
    qed
  next
    case (8 m s0)
    then have [simp]: "t = AfterFinishSentryWork (ByEnd m) None" "s0 = s'" by simp_all
    show ?thesis unfolding once_def
    proof
      fix n show "inFlight (ByEnd n) (exec t s') + count_list (events (exec t s')) (OrigEnd n)
                  = (if n < endCalls (exec t s') then 1 else 0)"
        using same [of n] other [of n] by (cases "m = n") (auto split: if_splits)
    qed
  next
    case (9 m e s0)
    with t show ?thesis by simp
  next
    case (10 err s0)
    then have [simp]: "t = AfterFinishSentryWork (ByCatch err) None" "s0 = s'" by simp_all
    show ?thesis unfolding once_def
    proof
      fix n show "inFlight (ByEnd n) (exec t s') + count_list (events (exec t s')) (OrigEnd n)
                  = (if n < endCalls (exec t s') then 1 else 0)"
        using other [of n] by (auto split: if_splits)
    qed
  next
    case (11 err e s0)
    with t show ?thesis by simp
  next
    case (12 s0)
    with s' show ?thesis by (simp add: once_def)
  next
    case (13 e s0)
    with s' show ?thesis by (simp add: once_def)
  qed
qed

text \<open>Invariant \<open>ordered\<close>: the order of the events of one call of finishSentryWork.\<close>

lemma precededBy_append:
  "precededBy P Q (xs @ ys) \<longleftrightarrow>
     precededBy P Q xs \<and> ((\<exists>x \<in> set xs. P x) \<or> precededBy P Q ys)"
  by (induction xs) auto

lemma ready_append [simp]: "ready c evs h t \<Longrightarrow> ready c (evs @ evs') h t"
  by (cases "(c, evs, h, t)" rule: ready.cases) auto

lemma hasTx_frame [simp]:
  "hasTx (emit e s) = hasTx s"
  "hasTx (enqueueMicro t s) = hasTx s"
  "hasTx (enqueueMacro t s) = hasTx s"
  "hasTx (s\<lparr>endCalls := n\<rparr>) = hasTx s"
  "hasTx (s\<lparr>boxes := n\<rparr>) = hasTx s"
  "hasTx (callFlush c s) = hasTx s"
  "hasTx (finishSentryWork c s) = hasTx s"
  "hasTx (newEnd s) = hasTx s"
  "hasTx (origEnd n s) = hasTx s"
  "hasTx (errorBridge v s) = hasTx s"
  "hasTx (s\<lparr>res := (res s)\<lparr>statusCode := k\<rparr>\<rparr>) = hasTx s"
  "hasTx (s\<lparr>res := (res s)\<lparr>finished := b\<rparr>\<rparr>) = hasTx s"
  "hasTx (s\<lparr>res := (res s)\<lparr>sentryTransaction := Some tx\<rparr>\<rparr>) = True"
  by (simp_all add: hasTx_def copyStatus_def origEnd_def)

lemma first_hasTx:
  "hasTx s \<Longrightarrow> firstTask c s = ImmediateFinish c"
  "hasTx s \<Longrightarrow> firstEvent c s = SetHttpStatus c (statusCode (res s))"
  "\<not> hasTx s \<Longrightarrow> firstTask c s = AfterFlush c (nextSettle s)"
  "\<not> hasTx s \<Longrightarrow> firstEvent c s = FlushCalled c 2000"
  by (simp_all add: hasTx_def firstTask_def firstEvent_def)

lemma ordered_newEnd: "ordered c s \<Longrightarrow> ordered c (newEnd s)"
  by (cases "hasTx s") (auto simp: ordered_def precededBy_append first_hasTx)

lemma ordered_runHandler: "ordered c s \<Longrightarrow> ordered c (runHandler as out s)"
proof (induction as out s rule: runHandler.induct)
  case (3 as out s)
  then show ?case by (simp add: ordered_newEnd)
qed (simp_all add: ordered_def)

lemma ordered_errorBridge: "ordered c s \<Longrightarrow> ordered c (errorBridge v s)"
  by (cases "hasTx s") (auto simp: ordered_def precededBy_append first_hasTx hasTx_def)

lemma ordered_exec:
  assumes "ordered c s" "sound s" "dequeued t s s'"
  shows "ordered c (exec t s')"
proof -
  from assms have t: "okTask t" by (simp add: sound_frame dequeued_tasks)
  note d = dequeued_tasks [OF assms(3)] dequeued_fields [OF assms(3)]
  have h: "hasTx s' = hasTx s" using d by (simp add: hasTx_def)
  have s': "ordered c s'" and r: "ready c (events s') (hasTx s') t"
    using assms(1) d h by (simp_all add: ordered_def)
  show ?thesis
  proof (cases "(t, s')" rule: exec.cases)
    case (1 as out s0)
    with s' show ?thesis by (simp add: ordered_runHandler)
  next
    case (2 s0)
    with s' show ?thesis by (auto simp: ordered_def precededBy_append)
  next
    case (3 e s0)
    with s' show ?thesis by (simp add: ordered_errorBridge)
  next
    case (4 c0 s0)
    with s' r show ?thesis
      by (auto simp: ordered_def precededBy_append hasTx_def split: option.split)
  next
    case (5 c0 s0)
    with s' r show ?thesis
      by (auto simp: ordered_def precededBy_append)
  next
    case (6 c0 b s0)
    with s' r show ?thesis
      by (auto simp: ordered_def precededBy_append)
  next
    case (7 c0 e s0)
    with s' r show ?thesis
      by (auto simp: ordered_def precededBy_append)
  next
    case (8 m s0)
    with s' r show ?thesis
      by (auto simp: ordered_def precededBy_append)
  next
    case (9 m e s0)
    with t show ?thesis by simp
  next
    case (10 err s0)
    with s' r show ?thesis
      by (auto simp: ordered_def precededBy_append)
  next
    case (11 err e s0)
    with t show ?thesis by simp
  next
    case (12 s0)
    with s' show ?thesis by (auto simp: ordered_def precededBy_append)
  next
    case (13 e s0)
    with s' r show ?thesis by (auto simp: ordered_def precededBy_append)
  qed
qed

text \<open>Invariant \<open>called\<close>: calls of the wrapped end made and still to be made by the handler.\<close>

lemma callsLeft_firstTask [simp]: "callsLeft (firstTask c s) = 0"
  by (simp add: firstTask_def)

lemma called_runHandler:
  "endCalls s + count_list as CallEnd + sum_mset (image_mset callsLeft (tasks s)) = k
   \<Longrightarrow> called k (runHandler as out s)"
proof (induction as out s rule: runHandler.induct)
  case (3 as out s)
  then show ?case by simp
qed (simp_all add: called_def)

lemma called_exec:
  assumes "called k s" "dequeued t s s'"
  shows "called k (exec t s')"
proof -
  note d = dequeued_tasks [OF assms(2)] dequeued_fields [OF assms(2)]
  have c: "endCalls s' + callsLeft t + sum_mset (image_mset callsLeft (tasks s')) = k"
    using assms(1) d by (simp add: called_def)
  show ?thesis
  proof (cases "(t, s')" rule: exec.cases)
    case (1 as out s0)
    with c show ?thesis by (simp add: called_runHandler)
  qed (use c in \<open>simp_all add: called_def split: option.split\<close>)
qed

text \<open>The invariants together, from the first call to the end of the loop.\<close>

lemma tasks_initial [simp]: "tasks (initial sc fl) = {#}"
  by (simp add: tasks_def pending_def initial_def)

lemma events_initial [simp]: "events (initial sc fl) = []"
  by (simp add: events_def initial_def)

lemma fields_initial [simp]:
  "endCalls (initial sc fl) = 0"
  "boxes (initial sc fl) = 0"
  "scope (initial sc fl) = sc"
  "sentryTransaction (res (initial sc fl)) = None"
  "sentryCapturedError (res (initial sc fl)) = None"
  "statusCode (res (initial sc fl)) = 200"
  "finished (res (initial sc fl)) = False"
  by (simp_all add: initial_def)

lemma withSentry_entered:
  "withSentry tracing req as out s = runHandler as out (entered tracing req s)"
  by (simp add: withSentry_def entered_def Let_def)

lemma entered_frame [simp]:
  "tasks (entered tracing req s) = tasks s"
  "endCalls (entered tracing req s) = endCalls s"
  "boxes (entered tracing req s) = boxes s"
  "scope (entered tracing req s) = scope s"
  "events (entered tracing req s)
     = events s @ (if scope s then
                     AddEventProcessor #
                     (if tracing then [StartTransaction (transactionName req) ''http.server''
                                         (traceparentOf req)] else [])
                   else [])"
  "statusCode (res (entered tracing req s)) = statusCode (res s)"
  "statusMessage (res (entered tracing req s)) = statusMessage (res s)"
  "finished (res (entered tracing req s)) = finished (res s)"
  "sentryCapturedError (res (entered tracing req s)) = sentryCapturedError (res s)"
  by (simp_all add: entered_def Let_def startTransaction_def)

lemma hasTx_entered [simp]:
  "hasTx (entered tracing req (initial sc fl)) \<longleftrightarrow> sc \<and> tracing"
  by (simp add: entered_def Let_def hasTx_def)

lemma inv_start: "inv (count_list as CallEnd) c (withSentry tracing req as out (initial sc fl))"
  unfolding inv_def withSentry_entered
proof (intro conjI)
  show "sound (runHandler as out (entered tracing req (initial sc fl)))"
    by (rule sound_runHandler) (auto simp: sound_frame)
  show "once (runHandler as out (entered tracing req (initial sc fl)))"
    by (rule once_runHandler) (simp add: once_def inFlight_def)
  show "ordered c (runHandler as out (entered tracing req (initial sc fl)))"
    by (rule ordered_runHandler) (simp add: ordered_def)
  show "called (count_list as CallEnd) (runHandler as out (entered tracing req (initial sc fl)))"
    by (rule called_runHandler) simp
qed

lemma inv_exec: "inv k c s \<Longrightarrow> dequeued t s s' \<Longrightarrow> inv k c (exec t s')"
  unfolding inv_def by (blast intro: sound_exec once_exec ordered_exec called_exec)

lemma inv_serve: "inv (count_list as CallEnd) c (serve sc tracing fl req as out)"
  unfolding serve_def using inv_start inv_exec by (rule run_invariant)

lemma tasks_serve [simp]: "tasks (serve sc tracing fl req as out) = {#}"
  by (simp add: tasks_def serve_def)



lemma precededBy_weaken:
  "precededBy P Q xs \<Longrightarrow> (\<And>x. Q' x \<Longrightarrow> Q x) \<Longrightarrow> precededBy P Q' xs"
  by (induction xs) auto

lemma endCalls_serve: "endCalls (serve sc tracing fl req as out) = count_list as CallEnd"
  using inv_serve [of as "ByEnd 0" sc tracing fl req out] by (simp add: inv_def called_def)

lemma count_OrigEnd_serve:
  "count_list (events (serve sc tracing fl req as out)) (OrigEnd n)
     = (if n < count_list as CallEnd then 1 else 0)"
  using inv_serve [of as "ByEnd 0" sc tracing fl req out]
  by (simp add: inv_def once_def inFlight_def endCalls_serve del: One_nat_def)

lemma ordered_serve: "ordered c (serve sc tracing fl req as out)"
  using inv_serve [of as c sc tracing fl req out] by (simp add: inv_def)

text \<open>Invariant \<open>wrapperInv\<close>: the wrapper itself: handler, then return or error bridge, then the host.\<close>

lemma counts_frame [simp]:
  "handlers (emit e s) = handlers s"
  "handlers (enqueueMicro t s) = handlers s + (if isHandlerTask t then 1 else 0)"
  "handlers (enqueueMacro t s) = handlers s + (if isHandlerTask t then 1 else 0)"
  "handlers (s\<lparr>res := r\<rparr>) = handlers s"
  "handlers (callFlush c s) = handlers s"
  "handlers (finishSentryWork c s) = handlers s"
  "handlers (newEnd s) = handlers s"
  "handlers (origEnd n s) = handlers s"
  "handlers (errorBridge v s) = handlers s"
  "bridges (emit e s) = bridges s"
  "bridges (enqueueMicro t s) = bridges s + (if isBridgeTask t then 1 else 0)"
  "bridges (enqueueMacro t s) = bridges s + (if isBridgeTask t then 1 else 0)"
  "bridges (s\<lparr>res := r\<rparr>) = bridges s"
  "bridges (callFlush c s) = bridges s + (if isCatchCaller c then 1 else 0)"
  "bridges (finishSentryWork c s) = bridges s + (if isCatchCaller c then 1 else 0)"
  "bridges (newEnd s) = bridges s"
  "bridges (origEnd n s) = bridges s"
  "bridges (errorBridge v s) = Suc (bridges s)"
  by (simp_all add: handlers_def bridges_def firstTask_def)

lemma firstTask_props [simp]:
  "wrapperOk out (firstTask c s) = callerOk out c"
  "firstTask c s \<noteq> HostContinue r"
  "\<not> isHostEvent (firstEvent c s)"
  "\<not> isCapture (firstEvent c s)"
  "hostEventOk out (firstEvent c s)"
  by (simp_all add: firstTask_def firstEvent_def)

lemma res_frame [simp]:
  "statusCode (copyStatus r) = statusCode r"
  "statusMessage (copyStatus r) = statusMessage r"
  "finished (copyStatus r) = finished r"
  "sentryCapturedError (copyStatus r) = sentryCapturedError r"
  by (simp_all add: copyStatus_def)

lemma firstTask_neq [simp]: "HostContinue r \<noteq> firstTask c s"
  by (simp add: firstTask_def)

lemma runHandler_handlers [simp]: "handlers (runHandler as out s) = Suc (handlers s)"
  by (induction as out s rule: runHandler.induct) simp_all

lemma runHandler_bridges [simp]: "bridges (runHandler as out s) = bridges s"
  by (induction as out s rule: runHandler.induct) simp_all

lemma runHandler_hostEvents [simp]:
  "filter isHostEvent (events (runHandler as out s)) = filter isHostEvent (events s)"
  by (induction as out s rule: runHandler.induct) simp_all

lemma runHandler_captures [simp]:
  "filter isCapture (events (runHandler as out s)) = filter isCapture (events s)"
  by (induction as out s rule: runHandler.induct) simp_all

lemma runHandler_fields [simp]:
  "boxes (runHandler as out s) = boxes s"
  "scope (runHandler as out s) = scope s"
  "finished (res (runHandler as out s)) = finished (res s)"
  "sentryCapturedError (res (runHandler as out s)) = sentryCapturedError (res s)"
  by (induction as out s rule: runHandler.induct) simp_all

lemma runHandler_HostContinue [simp]:
  "HostContinue r \<in># tasks (runHandler as out s) \<longleftrightarrow> HostContinue r \<in># tasks s"
  by (induction as out s rule: runHandler.induct) simp_all

lemma wrapperOks_runHandler: "wrapperOks out s \<Longrightarrow> wrapperOks out (runHandler as out s)"
proof (induction as out s rule: runHandler.induct)
  case (3 as out s)
  from "3.prems" have "wrapperOks out (newEnd s)" by (simp add: wrapperOks_def)
  then show ?case using "3.IH" by simp
qed (simp_all add: wrapperOks_def)

lemma dequeued_counts:
  assumes "dequeued t s s'"
  shows "handlers s = handlers s' + (if isHandlerTask t then 1 else 0)"
    and "bridges s = bridges s' + (if isBridgeTask t then 1 else 0)"
  using dequeued_tasks [OF assms] by (simp_all add: handlers_def bridges_def)

lemma token_exec:
  assumes "token 0 s" "sound s" "dequeued t s s'"
  shows "token 0 (exec t s')"
proof -
  from assms have t: "okTask t" by (simp add: sound_frame dequeued_tasks)
  note d = dequeued_counts [OF assms(3)] dequeued_fields [OF assms(3)]
  have c: "handlers s' + (if isHandlerTask t then 1 else 0)
           + bridges s' + (if isBridgeTask t then 1 else 0)
           + length (filter isHostEvent (events s')) = 1"
    using assms(1) d by (simp add: token_def)
  show ?thesis
    by (cases "(t, s')" rule: exec.cases)
       (use c t in \<open>auto simp: token_def origEnd_def split: option.split if_splits\<close>)
qed

lemma objectify_cases:
  "fst (objectify e n) = (case e of Prim p \<Rightarrow> Boxed n p | _ \<Rightarrow> e)"
  by (simp add: objectify_def split: jsval.split)

lemma wrapperOks_errorBridge:
  "wrapperOks (Throws e) s \<Longrightarrow> boxes s = 0 \<Longrightarrow> wrapperOks (Throws e) (errorBridge e s)"
  by (auto simp: wrapperOks_def)

lemma wrapperOks_exec:
  assumes "wrapperOks out s" "token 0 s" "phase out s" "checkable s" "sound s" "dequeued t s s'"
  shows "wrapperOks out (exec t s')"
proof -
  from assms have t: "okTask t" by (simp add: sound_frame dequeued_tasks)
  note d = dequeued_tasks [OF assms(6)] dequeued_fields [OF assms(6)]
  have s': "wrapperOks out s'" and w: "wrapperOk out t"
    using assms(1) d by (simp_all add: wrapperOks_def)
  have b: "boxes s' = 0" if "isHandlerTask t"
    using assms(3) that d dequeued_counts [OF assms(6)] by (simp add: phase_def before_def)
  have f: "finished (res s')" if "t = HostContinue None"
    using assms(4) that d by (simp add: checkable_def)
  show ?thesis
  proof (cases "(t, s')" rule: exec.cases)
    case (1 as out' s0)
    with s' w show ?thesis by (simp add: wrapperOks_runHandler)
  next
    case (3 e s0)
    with s' w b show ?thesis by (auto simp: wrapperOks_errorBridge)
  next
    case (12 s0)
    with s' w f show ?thesis by (simp add: wrapperOks_def)
  qed (use s' w t in \<open>auto simp: wrapperOks_def origEnd_def split: option.split\<close>)
qed

lemma checkable_exec:
  assumes "checkable s" "dequeued t s s'"
  shows "checkable (exec t s')"
proof -
  note d = dequeued_tasks [OF assms(2)] dequeued_fields [OF assms(2)]
  have s': "checkable s'"
    using assms(1) d by (simp add: checkable_def)
  show ?thesis
    by (cases "(t, s')" rule: exec.cases)
       (use s' in \<open>auto simp: checkable_def origEnd_def split: option.split\<close>)
qed

lemma captured_simps [simp]:
  "captured Returns sc = []"
  "captured (Throws e) sc = (if sc then [CaptureException (fst (objectify e 0))] else [])"
  by (simp_all add: captured_def)

lemma phase_exec:
  assumes "phase out s" "wrapperOks out s" "sound s" "dequeued t s s'" "token 0 s"
  shows "phase out (exec t s')"
proof -
  from assms have t: "okTask t" by (simp add: sound_frame dequeued_tasks)
  note d = dequeued_tasks [OF assms(4)] dequeued_fields [OF assms(4)]
  note n = dequeued_counts [OF assms(4)]
  have h0: "handlers s' = 0" if "isHandlerTask t"
    using assms(5) that n by (simp add: token_def)
  have w: "wrapperOk out t"
    using assms(2) d by (simp add: wrapperOks_def)
  have b: "before s'" if "isHandlerTask t \<or> 0 < handlers s'"
    using assms(1) that d n by (auto simp: phase_def before_def split: if_splits)
  have a: "after out s'" if "\<not> isHandlerTask t" "handlers s' = 0"
    using assms(1) that d n by (simp add: phase_def after_def)
  show ?thesis
  proof (cases "(t, s')" rule: exec.cases)
    case (1 as out' s0)
    with b show ?thesis by (simp add: phase_def before_def)
  next
    case (2 s0)
    with b w h0 show ?thesis by (auto simp: phase_def before_def after_def)
  next
    case (3 e s0)
    with b w h0 show ?thesis by (auto simp: phase_def before_def after_def)
  next
    case (4 c s0)
    with a b show ?thesis
      by (cases "0 < handlers s'") (auto simp: phase_def before_def after_def split: option.split)
  next
    case (5 c s0)
    with a b show ?thesis
      by (cases "0 < handlers s'") (auto simp: phase_def before_def after_def)
  next
    case (6 c b' s0)
    with a b show ?thesis
      by (cases "0 < handlers s'") (auto simp: phase_def before_def after_def)
  next
    case (7 c e s0)
    with a b show ?thesis
      by (cases "0 < handlers s'") (auto simp: phase_def before_def after_def)
  next
    case (8 m s0)
    with a b show ?thesis
      by (cases "0 < handlers s'") (auto simp: phase_def before_def after_def origEnd_def)
  next
    case (9 m e s0)
    with t show ?thesis by simp
  next
    case (10 err s0)
    with a b show ?thesis
      by (cases "0 < handlers s'") (auto simp: phase_def before_def after_def)
  next
    case (11 err e s0)
    with t show ?thesis by simp
  next
    case (12 s0)
    with a b show ?thesis
      by (cases "0 < handlers s'") (auto simp: phase_def before_def after_def)
  next
    case (13 e s0)
    with a b show ?thesis
      by (cases "0 < handlers s'") (auto simp: phase_def before_def after_def)
  qed
qed

lemma counts_start [simp]:
  "handlers (entered tracing req s) = handlers s"
  "bridges (entered tracing req s) = bridges s"
  "handlers (initial sc fl) = 0"
  "bridges (initial sc fl) = 0"
  by (simp_all add: handlers_def bridges_def)

lemma wrapperInv_exec:
  assumes "wrapperInv out s" "sound s" "dequeued t s s'"
  shows "wrapperInv out (exec t s')"
  using assms unfolding wrapperInv_def
  by (blast intro: token_exec wrapperOks_exec phase_exec checkable_exec)

lemma wrapperInv_start:
  "wrapperInv out (withSentry tracing req as out (initial sc fl))"
  unfolding wrapperInv_def withSentry_entered
proof (intro conjI)
  show "token 0 (runHandler as out (entered tracing req (initial sc fl)))"
    by (simp add: token_def)
  show "wrapperOks out (runHandler as out (entered tracing req (initial sc fl)))"
    by (rule wrapperOks_runHandler) (auto simp: wrapperOks_def)
  show "phase out (runHandler as out (entered tracing req (initial sc fl)))"
    by (simp add: phase_def before_def)
  show "checkable (runHandler as out (entered tracing req (initial sc fl)))"
    by (simp add: checkable_def)
qed

lemma wrapperInv_serve: "wrapperInv out (serve sc tracing fl req as out)"
proof -
  let ?I = "\<lambda>s. wrapperInv out s \<and> sound s"
  have "?I (run (withSentry tracing req as out (initial sc fl)))"
  proof (rule run_invariant [where I = ?I])
    show "?I (withSentry tracing req as out (initial sc fl))"
      using wrapperInv_start sound_initial by blast
  next
    fix t s s' assume "?I s" "dequeued t s s'"
    then show "?I (exec t s')" using wrapperInv_exec sound_exec by blast
  qed
  then show ?thesis by (simp add: serve_def)
qed

lemma scope_serve [simp]: "scope (serve sc tracing fl req as out) = sc"
proof -
  have "scope (run s) = scope s" for s
  proof (rule run_invariant [where I = "\<lambda>s'. scope s' = scope s"])
    fix t s1 s2 assume "scope s1 = scope s" "dequeued t s1 s2"
    then show "scope (exec t s2) = scope s"
      by (cases "(t, s2)" rule: exec.cases)
         (simp_all add: dequeued_def split: option.split)
  qed simp
  then show ?thesis by (simp add: serve_def withSentry_entered)
qed

lemma host_serve:
  "filter isHostEvent (events (serve sc tracing fl req as out))
     = (case errOf out of None \<Rightarrow> [HostCheck True] | Some v \<Rightarrow> [HostRejected v])"
proof -
  let ?s = "serve sc tracing fl req as out"
  from wrapperInv_serve [of out sc tracing fl req as]
  have l: "length (filter isHostEvent (events ?s)) = 1"
    and ok: "\<forall>e \<in> set (events ?s). hostEventOk out e"
    by (simp_all add: wrapperInv_def token_def wrapperOks_def handlers_def bridges_def
        del: One_nat_def)
  from l obtain ev where ev: "filter isHostEvent (events ?s) = [ev]"
    by (cases "filter isHostEvent (events ?s)") simp_all
  then have "ev \<in> set (filter isHostEvent (events ?s))" by simp
  then have "isHostEvent ev" "hostEventOk out ev" using ok by simp_all
  then have "ev = (case errOf out of None \<Rightarrow> HostCheck True | Some v \<Rightarrow> HostRejected v)"
    by (cases ev) (auto split: option.split)
  with ev show ?thesis by (simp split: option.split)
qed

lemma after_serve: "after out (serve sc tracing fl req as out)"
  using wrapperInv_serve [of out sc tracing fl req as]
  by (simp add: wrapperInv_def phase_def handlers_def)

lemma captures_serve:
  "filter isCapture (events (serve sc tracing fl req as out)) = captured out sc"
  using after_serve [of out sc tracing fl req as] by (simp add: after_def)





text \<open>Invariant \<open>failed\<close>: after the catch block the transaction carries the status 500.\<close>

lemma okFinish_firstEvent [simp]: "okFinish (firstEvent (ByEnd n) s)"
  by (simp add: firstEvent_def)

lemma failed_runHandler:
  "\<forall>e \<in> set (events s). okFinish e \<Longrightarrow> failed out (runHandler as out' s)"
proof (induction as out' s rule: runHandler.induct)
  case (3 as out' s)
  have "failed out (runHandler as out' (newEnd s))"
    by (rule "3.IH") (use "3.prems" in simp)
  then show ?case by simp
qed (simp_all add: failed_def)

lemma failed_exec:
  assumes "failed out s" "token 0 s" "wrapperOks out s" "sound s" "dequeued t s s'"
  shows "failed out (exec t s')"
proof -
  from assms have t: "okTask t" by (simp add: sound_frame dequeued_tasks)
  note d = dequeued_tasks [OF assms(5)] dequeued_fields [OF assms(5)]
  note n = dequeued_counts [OF assms(5)]
  have w: "wrapperOk out t"
    using assms(3) d by (simp add: wrapperOks_def)
  have e: "\<forall>e \<in> set (events s'). okFinish e"
    using assms(1) d by (simp add: failed_def)
  have h0: "handlers s' = 0" if "isHandlerTask t \<or> isBridgeTask t"
    using assms(2) that n by (auto simp: token_def split: if_splits)
  have tx: "\<forall>tx. sentryTransaction (res s') = Some tx \<longrightarrow> tx_httpStatus tx = Some 500"
    if "\<not> isHandlerTask t" "handlers s' = 0" "errOf out \<noteq> None"
    using assms(1) that d n by (simp add: failed_def)
  show ?thesis
  proof (cases "(t, s')" rule: exec.cases)
    case (1 as out' s0)
    with e show ?thesis by (simp add: failed_runHandler)
  next
    case (2 s0)
    with e w show ?thesis by (simp add: failed_def)
  next
    case (3 v s0)
    with e show ?thesis by (auto simp: failed_def setHttpStatus_def)
  next
    case (4 c s0)
    then have [simp]: "t = ImmediateFinish c" "s0 = s'" by simp_all
    show ?thesis
    proof (cases c)
      case (ByEnd m)
      with e tx show ?thesis
        by (simp add: failed_def finish_def split: option.split)
    next
      case (ByCatch v)
      with w have v: "errOf out = Some v" by simp
      with ByCatch h0 tx have "\<forall>tx. sentryTransaction (res s') = Some tx \<longrightarrow> tx_httpStatus tx = Some 500"
        by simp
      with e ByCatch v show ?thesis
        by (simp add: failed_def finish_def split: option.split)
    qed
  next
    case (5 c s0)
    with e tx show ?thesis by (simp add: failed_def)
  next
    case (6 c b' s0)
    with e tx show ?thesis by (simp add: failed_def)
  next
    case (7 c v s0)
    with e tx show ?thesis by (simp add: failed_def)
  next
    case (8 m s0)
    with e tx show ?thesis by (simp add: failed_def origEnd_def)
  next
    case (9 m v s0)
    with t show ?thesis by simp
  next
    case (10 err s0)
    with e tx show ?thesis by (simp add: failed_def)
  next
    case (11 err v s0)
    with t show ?thesis by simp
  next
    case (12 s0)
    with e tx show ?thesis by (simp add: failed_def)
  next
    case (13 v s0)
    with e tx show ?thesis by (simp add: failed_def)
  qed
qed

text \<open>Invariant \<open>finishedOnce\<close>: the transaction is finished by at most one call of finish.\<close>

lemma txFinished_frame [simp]:
  "txFinished (emit e s) = txFinished s"
  "txFinished (enqueueMicro t s) = txFinished s"
  "txFinished (enqueueMacro t s) = txFinished s"
  "txFinished (callFlush c s) = txFinished s"
  "txFinished (finishSentryWork c s) = txFinished s"
  "txFinished (newEnd s) = txFinished s"
  "txFinished (origEnd n s) = txFinished s"
  "txFinished (errorBridge v s) = txFinished s"
  "txFinished (s\<lparr>res := (res s)\<lparr>statusCode := k\<rparr>\<rparr>) = txFinished s"
  "txFinished (s\<lparr>res := (res s)\<lparr>finished := b\<rparr>\<rparr>) = txFinished s"
  by (simp_all add: txFinished_def copyStatus_def setHttpStatus_def origEnd_def
      split: option.split)

lemma effective_firstEvent [simp]:
  "\<not> isEffectiveFinish (firstEvent c s)"
  "\<not> isFinish (firstEvent c s)"
  by (simp_all add: firstEvent_def)

lemma runHandler_effective [simp]:
  "filter isEffectiveFinish (events (runHandler as out s)) = filter isEffectiveFinish (events s)"
  by (induction as out s rule: runHandler.induct) simp_all

lemma runHandler_isFinish [simp]:
  "list_ex isFinish (events (runHandler as out s)) = list_ex isFinish (events s)"
  by (induction as out s rule: runHandler.induct) simp_all

lemma runHandler_txFinished [simp]:
  "txFinished (runHandler as out s) = txFinished s"
  by (induction as out s rule: runHandler.induct) simp_all

lemma finishedOnce_exec:
  assumes "finishedOnce s" "dequeued t s s'"
  shows "finishedOnce (exec t s')"
proof -
  note d = dequeued_fields [OF assms(2)]
  have s': "finishedOnce s'"
    using assms(1) d by (simp add: finishedOnce_def txFinished_def)
  show ?thesis
  proof (cases "(t, s')" rule: exec.cases)
    case (4 c s0)
    with s' show ?thesis
      by (auto simp: finishedOnce_def txFinished_def finish_def split: option.split if_splits)
  qed (use s' in \<open>simp_all add: finishedOnce_def\<close>)
qed

text \<open>Invariant \<open>logged\<close>: every rejection of a flush is logged.\<close>

lemma rejections_tl:
  "rejections (tl (flushes s)) + (if isRejected (nextSettle s) then 1 else 0)
     = rejections (flushes s)"
  by (cases "flushes s") (simp_all add: rejections_def nextSettle_def)

lemma flushes_frame [simp]:
  "flushes (callFlush c s) = tl (flushes s)"
  "flushes (s\<lparr>res := r\<rparr>) = flushes s"
  "flushes (s\<lparr>endCalls := n\<rparr>) = flushes s"
  "flushes (s\<lparr>boxes := n\<rparr>) = flushes s"
  "flushes (origEnd n s) = flushes s"
  by (simp_all add: callFlush_def Let_def origEnd_def split: timing.split)

lemma logged_callFlush: "logged k s \<Longrightarrow> logged k (callFlush c s)"
  using rejections_tl [of s] by (auto simp: logged_def)

lemma logged_finishSentryWork: "logged k s \<Longrightarrow> logged k (finishSentryWork c s)"
  using logged_callFlush [of k s c]
  by (simp add: finishSentryWork_def split: option.split) (simp add: logged_def)

lemma logged_newEnd: "logged k s \<Longrightarrow> logged k (newEnd s)"
  unfolding newEnd_def by (rule logged_finishSentryWork) (simp add: logged_def)

lemma logged_runHandler: "logged k s \<Longrightarrow> logged k (runHandler as out s)"
proof (induction as out s rule: runHandler.induct)
  case (3 as out s)
  then show ?case by (simp add: logged_newEnd)
qed (simp_all add: logged_def)

lemma logged_errorBridge: "logged k s \<Longrightarrow> logged k (errorBridge v s)"
  unfolding errorBridge_def Let_def
  by (rule logged_finishSentryWork) (simp add: logged_def)

lemma logged_exec:
  assumes "logged k s" "dequeued t s s'"
  shows "logged k (exec t s')"
proof -
  have f: "flushes s' = flushes s" using assms(2) by (simp add: dequeued_def)
  note d = dequeued_tasks [OF assms(2)] dequeued_fields [OF assms(2)]
  have c: "rejections (flushes s') + size (filter_mset rejecting (tasks s'))
             + (if rejecting t then 1 else 0)
             + length (filter isFlushError (events s')) = k"
    using assms(1) d f by (cases "rejecting t") (simp_all add: logged_def)
  have s': "logged k s'" if "\<not> rejecting t"
    using c that by (simp add: logged_def)
  show ?thesis
  proof (cases "(t, s')" rule: exec.cases)
    case (1 as out s0)
    with s' show ?thesis by (simp add: logged_runHandler)
  next
    case (3 v s0)
    with s' show ?thesis by (simp add: logged_errorBridge)
  next
    case (5 c0 s0)
    with s' show ?thesis by (simp add: logged_callFlush)
  next
    case (7 c0 v s0)
    with c show ?thesis by (simp add: logged_def)
  qed (use s' in \<open>simp_all add: logged_def split: option.split\<close>)
qed

text \<open>The second group of invariants, to the end of the loop.\<close>

lemma inv2_start: "inv2 out (rejections fl) (withSentry tracing req as out (initial sc fl))"
  unfolding inv2_def
proof (intro conjI)
  show "sound (withSentry tracing req as out (initial sc fl))" by (rule sound_initial)
  show "wrapperInv out (withSentry tracing req as out (initial sc fl))"
    by (rule wrapperInv_start)
  show "failed out (withSentry tracing req as out (initial sc fl))"
    unfolding withSentry_entered by (rule failed_runHandler) auto
  show "finishedOnce (withSentry tracing req as out (initial sc fl))"
    unfolding withSentry_entered
    by (simp add: finishedOnce_def)
       (simp add: txFinished_def entered_def Let_def startTransaction_def initial_def emit_def)
  show "logged (rejections fl) (withSentry tracing req as out (initial sc fl))"
    unfolding withSentry_entered
    by (rule logged_runHandler)
       (simp add: logged_def, simp add: entered_def Let_def initial_def emit_def)
qed

lemma inv2_exec: "inv2 out k s \<Longrightarrow> dequeued t s s' \<Longrightarrow> inv2 out k (exec t s')"
  unfolding inv2_def wrapperInv_def
  by (intro conjI)
     (blast intro: sound_exec token_exec wrapperOks_exec phase_exec checkable_exec
        failed_exec finishedOnce_exec logged_exec)+

lemma inv2_serve: "inv2 out (rejections fl) (serve sc tracing fl req as out)"
  unfolding serve_def using inv2_start inv2_exec by (rule run_invariant)

text \<open>Invariant \<open>reported\<close>: the error is captured before it reaches the host.\<close>

lemma reported_runHandler: "reported out s \<Longrightarrow> reported out (runHandler as out' s)"
proof (induction as out' s rule: runHandler.induct)
  case (3 as out' s)
  from "3.prems" have "reported out (newEnd s)"
    by (simp add: reported_def precededBy_append)
  then show ?case using "3.IH" by simp
qed (simp_all add: reported_def)

lemma reported_exec:
  assumes "reported out s" "wrapperInv out s" "sound s" "dequeued t s s'"
  shows "reported out (exec t s')"
proof -
  from assms have t: "okTask t" by (simp add: sound_frame dequeued_tasks)
  note d = dequeued_tasks [OF assms(4)] dequeued_fields [OF assms(4)]
  note n = dequeued_counts [OF assms(4)]
  have s': "reported out s'"
    using assms(1) d by (simp add: reported_def)
  have w: "wrapperOk out t"
    using assms(2) d by (simp add: wrapperInv_def wrapperOks_def)
  have c: "\<exists>x \<in> set (events s'). isCapture x"
    if "isBridgeTask t" "scope s'" "errOf out \<noteq> None"
  proof -
    from assms(2) that n have "handlers s = 0"
      by (auto simp: wrapperInv_def token_def split: if_splits)
    with assms(2) that d have "filter isCapture (events s') \<noteq> []"
      by (auto simp: wrapperInv_def phase_def after_def captured_def)
    then show ?thesis by (simp add: filter_empty_conv)
  qed
  show ?thesis
  proof (cases "(t, s')" rule: exec.cases)
    case (1 as out' s0)
    with s' show ?thesis by (simp add: reported_runHandler)
  next
    case (9 m v s0)
    with t show ?thesis by simp
  next
    case (11 err v s0)
    with t show ?thesis by simp
  next
    case (12 s0)
    with s' w show ?thesis by (auto simp: reported_def precededBy_append)
  next
    case (13 v s0)
    with s' c show ?thesis by (auto simp: reported_def precededBy_append)
  qed (use s' in \<open>auto simp: reported_def precededBy_append origEnd_def split: option.split\<close>)
qed

lemma reported_serve: "reported out (serve sc tracing fl req as out)"
proof -
  let ?I = "\<lambda>s. reported out s \<and> wrapperInv out s \<and> sound s"
  have "?I (run (withSentry tracing req as out (initial sc fl)))"
  proof (rule run_invariant [where I = ?I])
    have "reported out (withSentry tracing req as out (initial sc fl))"
      unfolding withSentry_entered
      by (rule reported_runHandler) (simp add: reported_def)
    then show "?I (withSentry tracing req as out (initial sc fl))"
      using wrapperInv_start sound_initial by blast
  next
    fix t s s' assume "?I s" "dequeued t s s'"
    then show "?I (exec t s')" using reported_exec wrapperInv_exec sound_exec by blast
  qed
  then show ?thesis by (simp add: serve_def)
qed


lemma finishedOnce_serve: "finishedOnce (serve sc tracing fl req as out)"
  using inv2_serve [of out fl sc tracing req as] by (simp add: inv2_def)

lemma logged_serve:
  "rejections (flushes (serve sc tracing fl req as out))
     + length (filter isFlushError (events (serve sc tracing fl req as out)))
   = rejections fl"
  using inv2_serve [of out fl sc tracing req as] by (simp add: inv2_def logged_def)

lemma no_fault_serve: "\<not> list_ex isFault (events (serve sc tracing fl req as out))"
  using sound_serve [of sc tracing fl req as out] by (simp add: sound_def)

lemma handlers_serve [simp]: "handlers (serve sc tracing fl req as out) = 0"
  by (simp add: handlers_def)

lemma rethrown_after_flush:
  "precededBy (\<lambda>x. x = FlushSettled (ByCatch v)) (\<lambda>x. x = HostRejected v)
     (events (serve sc tracing fl req as out))"
  by (rule precededBy_weaken [where Q = "completes (ByCatch v)"])
     (use ordered_serve [of "ByCatch v" sc tracing fl req as out] in \<open>simp_all add: ordered_def\<close>)

text \<open>Invariant \<open>deferred\<close>: with a transaction, the work of a call of the wrapped end waits for a later turn.\<close>

lemma knownCall_append [simp]: "knownCall k n l \<Longrightarrow> knownCall k n (l @ l')"
  by (auto simp: knownCall_def)

lemma knownCall_Suc [simp]: "knownCall k n l \<Longrightarrow> knownCall (Suc k) n l"
  by (auto simp: knownCall_def less_Suc_eq)

lemma knownCall_new [simp]: "knownCall (Suc k) n (l @ (k, EndCalled n) # l')"
  by (auto simp: knownCall_def)

lemma flipOk_append [simp]: "flipOk l x \<Longrightarrow> flipOk (l @ l') x"
  by (cases "(l, x)" rule: flipOk.cases) simp_all

lemma calledBefore_append [simp]: "calledBefore k l t \<Longrightarrow> calledBefore k (l @ l') t"
  by (cases "(k, l, t)" rule: calledBefore.cases) simp_all

lemma calledBefore_Suc [simp]: "calledBefore k l t \<Longrightarrow> calledBefore (Suc k) l t"
  by (cases "(k, l, t)" rule: calledBefore.cases) simp_all

lemma calledBefore_next:
  "calledBefore k l (ImmediateFinish c) \<Longrightarrow> calledBefore k l (AfterTransactionFinished c)"
  "calledBefore k l (AfterTransactionFinished c) \<Longrightarrow> calledBefore k l (AfterFlush c st)"
  "calledBefore k l (AfterFlush c st) \<Longrightarrow> calledBefore k l (AfterFinishSentryWork c r)"
  by (cases c; simp)+

lemma deferred_newEnd: "deferred s \<Longrightarrow> deferred (newEnd s)"
  unfolding deferred_def
  by (simp add: newEnd_def finishSentryWork_def hasTx_def emit_def enqueueMacro_def
        split: option.split)

lemma deferred_runHandler: "deferred s \<Longrightarrow> deferred (runHandler as out s)"
proof (induction as out s rule: runHandler.induct)
  case (3 as out s)
  then show ?case by (simp add: deferred_newEnd)
qed (simp_all add: deferred_def hasTx_def enqueueMicro_def enqueueMacro_def)

lemma deferred_callFlush:
  "deferred s \<Longrightarrow> calledBefore (turn s) (log s) (AfterFlush c st) \<Longrightarrow> deferred (callFlush c s)"
  unfolding deferred_def
  by (cases c)
     (simp_all add: callFlush_def Let_def hasTx_def emit_def enqueueMicro_def enqueueMacro_def
        split: timing.split)

lemma deferred_exec:
  assumes "deferred s" "calledBefore (turn s) (log s) t" "okTask t"
  shows "deferred (exec t s)"
proof (cases "(t, s)" rule: exec.cases)
  case (1 as out s0)
  with assms show ?thesis by (simp add: deferred_runHandler)
next
  case (2 s0)
  with assms show ?thesis by (simp add: deferred_def hasTx_def emit_def enqueueMicro_def)
next
  case (3 e s0)
  with assms show ?thesis
    by (simp add: deferred_def hasTx_def emit_def enqueueMacro_def errorBridge_def Let_def
          finishSentryWork_def split: option.split)
next
  case (4 c s0)
  with assms calledBefore_next(1) [of "turn s" "log s" c] show ?thesis
    by (simp add: deferred_def hasTx_def emit_def enqueueMicro_def split: option.split)
next
  case (5 c s0)
  with assms calledBefore_next(2) [of "turn s" "log s" c] show ?thesis
    by (simp add: deferred_callFlush)
next
  case (6 c b s0)
  with assms calledBefore_next(3) [of "turn s" "log s" c "Resolved b" None] show ?thesis
    by (simp add: deferred_def hasTx_def emit_def enqueueMicro_def)
next
  case (7 c e s0)
  with assms calledBefore_next(3) [of "turn s" "log s" c "Rejected e" None] show ?thesis
    by (simp add: deferred_def hasTx_def emit_def enqueueMicro_def)
next
  case (8 n s0)
  with assms show ?thesis
    by (simp add: deferred_def hasTx_def emit_def origEnd_def)
next
  case (9 n e s0)
  with assms show ?thesis by simp
next
  case (10 err s0)
  with assms show ?thesis by (simp add: deferred_def hasTx_def enqueueMicro_def)
next
  case (11 err e s0)
  with assms show ?thesis by simp
next
  case (12 s0)
  with assms show ?thesis by (simp add: deferred_def hasTx_def emit_def)
next
  case (13 e s0)
  with assms show ?thesis by (simp add: deferred_def hasTx_def emit_def)
qed

lemma deferred_step:
  assumes "deferred s" "sound s"
  shows "deferred (step s)"
proof (cases "microtasks s")
  case Nil
  show ?thesis
  proof (cases "macrotasks s")
    case Nil': Nil
    with Nil assms show ?thesis by (simp add: step_def)
  next
    case (Cons t ts)
    have "deferred (exec t (s\<lparr>macrotasks := ts, turn := Suc (turn s)\<rparr>))"
    proof (rule deferred_exec)
      show "deferred (s\<lparr>macrotasks := ts, turn := Suc (turn s)\<rparr>)"
        using assms(1) Nil Cons by (simp add: deferred_def hasTx_def)
      show "calledBefore (turn (s\<lparr>macrotasks := ts, turn := Suc (turn s)\<rparr>))
              (log (s\<lparr>macrotasks := ts, turn := Suc (turn s)\<rparr>)) t"
        using assms(1) Cons by (simp add: deferred_def)
      show "okTask t" using assms(2) Cons by (simp add: sound_def pending_def)
    qed
    with Nil Cons show ?thesis by (simp add: step_def)
  qed
next
  case (Cons t ts)
  have "deferred (exec t (s\<lparr>microtasks := ts\<rparr>))"
  proof (rule deferred_exec)
    show "deferred (s\<lparr>microtasks := ts\<rparr>)"
      using assms(1) Cons by (simp add: deferred_def hasTx_def)
    show "calledBefore (turn (s\<lparr>microtasks := ts\<rparr>)) (log (s\<lparr>microtasks := ts\<rparr>)) t"
      using assms(1) Cons by (simp add: deferred_def)
    show "okTask t" using assms(2) Cons by (simp add: sound_def pending_def)
  qed
  with Cons show ?thesis by (simp add: step_def)
qed

lemma sound_step: "sound s \<Longrightarrow> sound (step s)"
proof (cases "pending s = []")
  case True
  assume "sound s"
  with True show ?thesis by (simp add: step_def pending_def)
next
  case False
  assume s: "sound s"
  from step_dequeued [OF False] obtain t s' where "dequeued t s s'" "step s = exec t s'"
    by blast
  with s show ?thesis by (simp add: sound_exec)
qed

lemma deferred_run: "deferred s \<Longrightarrow> sound s \<Longrightarrow> deferred (run s)"
proof (induction s rule: run.induct)
  case (1 s)
  show ?case
  proof (cases "pending s = []")
    case True
    with 1(2) show ?thesis by (subst run.simps) simp
  next
    case False
    from "1.IH" [OF False deferred_step [OF 1(2,3)] sound_step [OF 1(3)]] False
    show ?thesis by (subst run.simps) simp
  qed
qed

lemma deferred_serve: "deferred (serve True True fl req as out)"
  unfolding serve_def
proof (rule deferred_run)
  show "deferred (withSentry True req as out (initial True fl))"
    unfolding withSentry_entered
    by (rule deferred_runHandler)
       (simp add: deferred_def hasTx_def entered_def Let_def initial_def emit_def)
  show "sound (withSentry True req as out (initial True fl))" by (rule sound_initial)
qed

text \<open>
  With a transaction on the response the setImmediate callback is awaited: the flag is
  flipped back, and the original end runs, in a later turn than the one in which the
  wrapped end was called.
\<close>

lemma flip_in_later_turn_with_transaction:
  "(k, FlipFinished n) \<in> set (log (serve True True fl req as out))
   \<Longrightarrow> \<exists>j < k. (j, EndCalled n) \<in> set (log (serve True True fl req as out))"
proof -
  assume f: "(k, FlipFinished n) \<in> set (log (serve True True fl req as out))"
  from deferred_serve [of fl req as out]
  have "\<forall>x \<in> set (log (serve True True fl req as out)).
          flipOk (log (serve True True fl req as out)) x"
    by (simp add: deferred_def)
  with f have "flipOk (log (serve True True fl req as out)) (k, FlipFinished n)" by blast
  then show ?thesis by (simp add: knownCall_def)
qed


subsection \<open>The original end runs as often as the wrapped end is called\<close>

lemma delegated_firstTask [simp]:
  "isEndTask (firstTask c s) = (\<not> isCatchCaller c)"
  "\<not> isOrigEnd (firstEvent c s)"
  by (simp_all add: firstTask_def firstEvent_def)




section \<open>The wrapped end method\<close>




section \<open>The error bridge\<close>

text \<open>
  C7: when the handler fails, the host receives exactly one rejection, and its value is
  the boxed error itself: the wrapper object made for a thrown primitive, or the thrown
  object as it is. It is the same value that was captured (when there is a scope), it
  reaches the host only after the flush of the catch block has settled, and the capture
  comes before it.
\<close>

theorem error_rethrown_unchanged:
  "filter isHostEvent (events (serve sc tracing fl req as (Throws e)))
     = [HostRejected (fst (objectify e 0))]
   \<and> filter isCapture (events (serve sc tracing fl req as (Throws e)))
     = (if sc then [CaptureException (fst (objectify e 0))] else [])
   \<and> fst (objectify e 0) = (case e of Prim p \<Rightarrow> Boxed 0 p | _ \<Rightarrow> e)
   \<and> precededBy (\<lambda>x. x = FlushSettled (ByCatch (fst (objectify e 0))))
        (\<lambda>x. x = HostRejected (fst (objectify e 0)))
        (events (serve sc tracing fl req as (Throws e)))
   \<and> (sc \<longrightarrow> precededBy isCapture isHostEvent (events (serve sc tracing fl req as (Throws e))))"
proof -
  let ?s = "serve sc tracing fl req as (Throws e)"
  have 1: "filter isHostEvent (events ?s) = [HostRejected (fst (objectify e 0))]"
    using host_serve [of sc tracing fl req as "Throws e"] by simp
  have 2: "filter isCapture (events ?s)
             = (if sc then [CaptureException (fst (objectify e 0))] else [])"
    using captures_serve [of sc tracing fl req as "Throws e"] by simp
  have 3: "sc \<longrightarrow> precededBy isCapture isHostEvent (events ?s)"
    using reported_serve [of "Throws e" sc tracing fl req as] by (simp add: reported_def)
  from 1 2 3 objectify_cases [of e 0] rethrown_after_flush [of "fst (objectify e 0)"]
  show ?thesis by blast
qed

text \<open>
  The scenario of the specification: the handler throws the string \<open>boom\<close>; the events
  in the order in which they happen.
\<close>

theorem error_rethrown_unchanged_witness:
  "events (serve True True [] exampleRequest [] (Throws (Prim (PString ''boom''))))
     = [AddEventProcessor, StartTransaction ''GET /a/[x]/b/[y]'' ''http.server'' None,
        AddEventProcessor, CaptureException (Boxed 0 (PString ''boom'')),
        SetHttpStatus (ByCatch (Boxed 0 (PString ''boom''))) 500,
        FinishCalled (ByCatch (Boxed 0 (PString ''boom''))) (Some 500) False,
        FlushCalled (ByCatch (Boxed 0 (PString ''boom''))) 2000,
        FlushSettled (ByCatch (Boxed 0 (PString ''boom''))),
        HostRejected (Boxed 0 (PString ''boom''))]
   \<and> filter isHostEvent
        (events (serve True True [] exampleRequest [] (Throws (Prim (PString ''boom'')))))
     = [HostRejected (Boxed 0 (PString ''boom''))]
   \<and> filter isCapture
        (events (serve True True [] exampleRequest [] (Throws (Prim (PString ''boom'')))))
     = [CaptureException (Boxed 0 (PString ''boom''))]
   \<and> precededBy isCapture isHostEvent
        (events (serve True True [] exampleRequest [] (Throws (Prim (PString ''boom'')))))"
proof -
  have "events (serve True True [] exampleRequest [] (Throws (Prim (PString ''boom''))))
     = [AddEventProcessor, StartTransaction ''GET /a/[x]/b/[y]'' ''http.server'' None,
        AddEventProcessor, CaptureException (Boxed 0 (PString ''boom'')),
        SetHttpStatus (ByCatch (Boxed 0 (PString ''boom''))) 500,
        FinishCalled (ByCatch (Boxed 0 (PString ''boom''))) (Some 500) False,
        FlushCalled (ByCatch (Boxed 0 (PString ''boom''))) 2000,
        FlushSettled (ByCatch (Boxed 0 (PString ''boom''))),
        HostRejected (Boxed 0 (PString ''boom''))]"
    by code_simp
  with error_rethrown_unchanged
      [of True True "[]" exampleRequest "[]" "Prim (PString ''boom'')"]
  show ?thesis by (simp add: objectify_def)
qed


section \<open>Capture of the error\<close>





section \<open>Status of a failed request\<close>





section \<open>The flush step\<close>

text \<open>
  C8: whatever the calls of \<^verbatim>\<open>flush\<close> do, resolve or reject, within the turn or later,
  nothing is thrown to the callers of \<^verbatim>\<open>finishSentryWork\<close>: the promise of the wrapped end
  method is never rejected and the original end never faults; the host sees the normal
  return of the handler, or exactly the boxed error of the handler and never a rejection
  of the flush; every rejection of a flush that was called is logged; and every call of
  the wrapped end still runs the original end once.
\<close>

theorem flush_never_throws:
  "\<not> list_ex isFault (events (serve sc tracing fl req as out))
   \<and> filter isHostEvent (events (serve sc tracing fl req as out))
       = (case out of
            Returns \<Rightarrow> [HostCheck True]
          | Throws e \<Rightarrow> [HostRejected (fst (objectify e 0))])
   \<and> rejections (flushes (serve sc tracing fl req as out))
       + length (filter isFlushError (events (serve sc tracing fl req as out)))
       = rejections fl
   \<and> count_list (events (serve sc tracing fl req as out)) (OrigEnd n)
       = (if n < count_list as CallEnd then 1 else 0)"
  using no_fault_serve [of sc tracing fl req as out]
    host_serve [of sc tracing fl req as out]
    logged_serve [of sc tracing fl req as out]
    count_OrigEnd_serve [of sc tracing fl req as out n]
  by (cases out) simp_all

text \<open>
  A flush that rejects with the object 7 in a later turn, for a handler that calls
  \<^verbatim>\<open>res.end()\<close> and returns: the rejection is logged and the original end runs.
\<close>

theorem flush_never_throws_witness:
  "events (serve True True [(LaterTurn, Rejected (Obj 7))] exampleRequest [CallEnd] Returns)
     = [AddEventProcessor, StartTransaction ''GET /a/[x]/b/[y]'' ''http.server'' None,
        EndCalled 0, SetHttpStatus (ByEnd 0) 200, MarkFinished, HostCheck True,
        FinishCalled (ByEnd 0) (Some 200) False, FlushCalled (ByEnd 0) 2000,
        FlushSettled (ByEnd 0), FlushError (ByEnd 0) (Obj 7), FlipFinished 0, OrigEnd 0]
   \<and> \<not> list_ex isFault
         (events (serve True True [(LaterTurn, Rejected (Obj 7))] exampleRequest [CallEnd]
            Returns))
   \<and> count_list
        (events (serve True True [(LaterTurn, Rejected (Obj 7))] exampleRequest [CallEnd]
           Returns)) (OrigEnd 0) = 1"
proof -
  have "events (serve True True [(LaterTurn, Rejected (Obj 7))] exampleRequest [CallEnd] Returns)
     = [AddEventProcessor, StartTransaction ''GET /a/[x]/b/[y]'' ''http.server'' None,
        EndCalled 0, SetHttpStatus (ByEnd 0) 200, MarkFinished, HostCheck True,
        FinishCalled (ByEnd 0) (Some 200) False, FlushCalled (ByEnd 0) 2000,
        FlushSettled (ByEnd 0), FlushError (ByEnd 0) (Obj 7), FlipFinished 0, OrigEnd 0]"
    by code_simp
  with flush_never_throws
    [of True True "[(LaterTurn, Rejected (Obj 7))]" exampleRequest "[CallEnd]" Returns 0]
  show ?thesis by simp
qed


section \<open>Calling the wrapped end method twice\<close>

text \<open>
  C3: \<^verbatim>\<open>finish\<close> on a finished transaction changes nothing, so finishing twice is
  finishing once. Whatever the handler does, in particular when it calls the wrapped end
  method twice, the loop comes to an end with nothing left waiting, no promise of the
  wrapped end is rejected, the original end never reports a write after end, the
  transaction is finished by at most one of the calls of \<^verbatim>\<open>finish\<close>, and each call of the
  wrapped end runs the original end once.
\<close>

theorem double_end_is_safe:
  "finish (finish tx) = finish tx
   \<and> (tx_finished tx \<longrightarrow> finish tx = tx)
   \<and> pending (serve sc tracing fl req as out) = []
   \<and> \<not> list_ex isFault (events (serve sc tracing fl req as out))
   \<and> length (filter isEffectiveFinish (events (serve sc tracing fl req as out))) \<le> 1
   \<and> count_list (events (serve sc tracing fl req as out)) (OrigEnd n)
       = (if n < count_list as CallEnd then 1 else 0)"
proof -
  have "length (filter isEffectiveFinish (events (serve sc tracing fl req as out))) \<le> 1"
    using finishedOnce_serve [of sc tracing fl req as out] by (simp add: finishedOnce_def)
  moreover have "pending (serve sc tracing fl req as out) = []"
    by (simp add: serve_def)
  ultimately show ?thesis
    using no_fault_serve [of sc tracing fl req as out]
      count_OrigEnd_serve [of sc tracing fl req as out n]
    by (simp add: finish_def)
qed

text \<open>
  A handler that calls \<^verbatim>\<open>res.end()\<close> twice: the second \<^verbatim>\<open>finish\<close> finds the
  transaction finished, both flushes are awaited, and the original end runs for both calls.
\<close>

theorem double_end_is_safe_witness:
  "events (serve True True [] exampleRequest [CallEnd, CallEnd] Returns)
     = [AddEventProcessor, StartTransaction ''GET /a/[x]/b/[y]'' ''http.server'' None,
        EndCalled 0, SetHttpStatus (ByEnd 0) 200, EndCalled 1, SetHttpStatus (ByEnd 1) 200,
        MarkFinished, HostCheck True,
        FinishCalled (ByEnd 0) (Some 200) False, FlushCalled (ByEnd 0) 2000,
        FinishCalled (ByEnd 1) (Some 200) True, FlushCalled (ByEnd 1) 2000,
        FlushSettled (ByEnd 0), FlipFinished 0, OrigEnd 0,
        FlushSettled (ByEnd 1), FlipFinished 1, OrigEnd 1]
   \<and> \<not> list_ex isFault (events (serve True True [] exampleRequest [CallEnd, CallEnd] Returns))
   \<and> count_list (events (serve True True [] exampleRequest [CallEnd, CallEnd] Returns))
        (OrigEnd 1) = 1
   \<and> finish (finish (startTransaction ''GET /'' ''http.server'' None))
       = finish (startTransaction ''GET /'' ''http.server'' None)"
proof -
  have "events (serve True True [] exampleRequest [CallEnd, CallEnd] Returns)
     = [AddEventProcessor, StartTransaction ''GET /a/[x]/b/[y]'' ''http.server'' None,
        EndCalled 0, SetHttpStatus (ByEnd 0) 200, EndCalled 1, SetHttpStatus (ByEnd 1) 200,
        MarkFinished, HostCheck True,
        FinishCalled (ByEnd 0) (Some 200) False, FlushCalled (ByEnd 0) 2000,
        FinishCalled (ByEnd 1) (Some 200) True, FlushCalled (ByEnd 1) 2000,
        FlushSettled (ByEnd 0), FlipFinished 0, OrigEnd 0,
        FlushSettled (ByEnd 1), FlipFinished 1, OrigEnd 1]"
    by code_simp
  with double_end_is_safe
    [of "startTransaction ''GET /'' ''http.server'' None" True True "[]" exampleRequest
        "[CallEnd, CallEnd]" Returns 1]
  show ?thesis by simp
qed


section \<open>The turn in which the response is completed\<close>

text \<open>
  C2: the flag is set to true when the handler has returned (\<open>MarkFinished\<close>), and the
  host's check follows in the same turn. The claim says that the deferred work, which flips
  the flag back and runs the original end, happens only in a later turn. The wrapper
  awaits \<^verbatim>\<open>setImmediate\<close> only inside \<^verbatim>\<open>if (transaction)\<close>. With tracing off the
  response carries no transaction, and when the flush settles within the turn the flag is
  flipped back and the original end runs in turn 0, the turn of the handler's return and
  of the host's check. With a transaction the flip does come in a later turn than the
  call (lemma \<open>flip_in_later_turn_with_transaction\<close>).
\<close>

theorem flip_in_same_turn_without_transaction:
  "log (serve True False [(SameTurn, Resolved True)] exampleRequest [CallEnd] Returns)
     = [(0, AddEventProcessor), (0, EndCalled 0), (0, FlushCalled (ByEnd 0) 2000),
        (0, FlushSettled (ByEnd 0)), (0, MarkFinished), (0, FlipFinished 0),
        (0, OrigEnd 0), (0, HostCheck True)]"
  by code_simp


section \<open>Path normalisation on the example of the specification\<close>

text \<open>
  C4, as stated: for the path \<^verbatim>\<open>/a/5/b/5\<close> and the query entries \<open>x = 5\<close>, \<open>y = 5\<close>
  (in this order) the normalised path is said to be \<^verbatim>\<open>/a/[x]/b/[x]\<close>. The loop does not
  produce that: \<^verbatim>\<open>replace\<close> with a string pattern rewrites one occurrence per entry.
\<close>

theorem normalizedPath_example_counterexample:
  "replaceParams ''/a/5/b/5'' [(''x'', QStr ''5''), (''y'', QStr ''5'')] \<noteq> ''/a/[x]/b/[x]''"
  by (simp add: replace_def)

text \<open>
  C4, amended: each query entry, in insertion order, replaces the first occurrence of its
  value that is still in the path, so for \<^verbatim>\<open>/a/5/b/5\<close> with \<open>x = 5\<close>, \<open>y = 5\<close> the
  normalised path is \<^verbatim>\<open>/a/[x]/b/[y]\<close>, and the transaction of a GET request for it is
  named \<^verbatim>\<open>GET /a/[x]/b/[y]\<close>.
\<close>

theorem normalizedPath_example:
  "replaceParams ''/a/5/b/5'' [(''x'', QStr ''5''), (''y'', QStr ''5'')] = ''/a/[x]/b/[y]''
   \<and> transactionName \<lparr>req_method = Some ''get'', req_url = Some ''/a/5/b/5'',
         req_query = Some [(''x'', QStr ''5''), (''y'', QStr ''5'')],
         req_sentry_trace = None\<rparr> = ''GET /a/[x]/b/[y]''"
  by (simp add: replace_def transactionName_def reqMethod_def normalizedPath_def
      stripUrlQueryAndFragment_def toUpperCase_def toUpperChar_def)


section \<open>Trace propagation: parsing and round trip\<close>

lemma extract_of_format:
  assumes "traceparentFormat s v t sp f"
  shows "extractTraceparentData s = Some \<lparr>traceId = t, parentSpanId = sp, flags = f\<rparr>"
proof -
  from assms have s: "s = v @ ''-'' @ t @ ''-'' @ sp @ ''-'' @ f"
    and l: "length v = 2" "length t = 32" "length sp = 16" "length f = 2"
    and h: "list_all isHexDigit v" "list_all isHexDigit t" "list_all isHexDigit sp" "list_all isHexDigit f"
    by (simp_all add: traceparentFormat_def)
  have len: "length s = 55" using s l by simp
  have t2: "take 2 s = v" using s l by simp
  have d3: "drop 3 s = t @ ''-'' @ sp @ ''-'' @ f" using s l by simp
  have t32: "take 32 (drop 3 s) = t" using d3 l by simp
  have d36: "drop 36 s = sp @ ''-'' @ f" using s l by simp
  have t16: "take 16 (drop 36 s) = sp" using d36 l by simp
  have d53: "drop 53 s = f" using s l by simp
  have n2: "s ! 2 = CHR ''-''" using s l by (simp add: nth_append)
  have n35: "s ! 35 = CHR ''-''" using s l by (simp add: nth_append)
  have n52: "s ! 52 = CHR ''-''" using s l by (simp add: nth_append)
  show ?thesis
    unfolding extractTraceparentData_def Let_def t2 t32 t16 d53
    using len n2 n35 n52 h by simp
qed

lemma format_of_extract:
  assumes "extractTraceparentData s = Some tp"
  shows "traceparentFormat s (take 2 s) (traceId tp) (parentSpanId tp) (flags tp)"
proof -
  from assms have len: "length s = 55"
    and n: "s ! 2 = CHR ''-''" "s ! 35 = CHR ''-''" "s ! 52 = CHR ''-''"
    and hx: "list_all isHexDigit (take 2 s)" "list_all isHexDigit (take 32 (drop 3 s))"
       "list_all isHexDigit (take 16 (drop 36 s))" "list_all isHexDigit (drop 53 s)"
    and tp: "tp = \<lparr>traceId = take 32 (drop 3 s), parentSpanId = take 16 (drop 36 s),
                   flags = drop 53 s\<rparr>"
    by (simp_all add: extractTraceparentData_def Let_def split: if_splits)
  have a: "s = take 2 s @ s ! 2 # drop 3 s"
    using id_take_nth_drop [of 2 s] len by simp
  have b: "drop 3 s = take 32 (drop 3 s) @ s ! 35 # drop 36 s"
    using id_take_nth_drop [of 32 "drop 3 s"] len by simp
  have c: "drop 36 s = take 16 (drop 36 s) @ s ! 52 # drop 53 s"
    using id_take_nth_drop [of 16 "drop 36 s"] len by simp
  have "s = take 2 s @ ''-'' @ take 32 (drop 3 s) @ ''-'' @ take 16 (drop 36 s) @ ''-'' @ drop 53 s"
    using a b c n by simp
  then show ?thesis
    unfolding traceparentFormat_def tp using hx len by simp
qed

lemma freshSpanId_Some:
  "freshSpanId p supply = Some c \<Longrightarrow> c \<noteq> p \<and> c \<in> set supply"
  by (auto simp: freshSpanId_def find_Some_iff)

lemma freshSpanId_exists:
  "c \<in> set supply \<Longrightarrow> c \<noteq> p \<Longrightarrow> \<exists>d. freshSpanId p supply = Some d"
  by (cases "freshSpanId p supply") (auto simp: freshSpanId_def find_None_iff)

text \<open>
  C9: for every input, extraction returns the parsed token when the input has the format
  \<^verbatim>\<open><2-hex-version>-<32-hex-traceId>-<16-hex-spanId>-<2-hex-flags>\<close> and none when it has
  not; being a total function it never raises. The token of the test whose flags field is
  \<open>x\<close> yields none.
\<close>

theorem extractTraceparentData_total:
  "(traceparentFormat s version tid sid fl \<longrightarrow>
      extractTraceparentData s = Some \<lparr>traceId = tid, parentSpanId = sid, flags = fl\<rparr>)
   \<and> ((\<forall>v t p f. \<not> traceparentFormat s v t p f) \<longrightarrow> extractTraceparentData s = None)
   \<and> extractTraceparentData ''00-aaaaaaaaaaaaaaaaaaaaaaaaaaaaaaaa-bbbbbbbbbbbbbbbb-x'' = None"
proof (intro conjI impI)
  assume "traceparentFormat s version tid sid fl"
  then show "extractTraceparentData s = Some \<lparr>traceId = tid, parentSpanId = sid, flags = fl\<rparr>"
    by (rule extract_of_format)
next
  assume no: "\<forall>v t p f. \<not> traceparentFormat s v t p f"
  show "extractTraceparentData s = None"
  proof (cases "extractTraceparentData s")
    case None
    then show ?thesis .
  next
    case (Some tp)
    from format_of_extract [OF Some] no show ?thesis by blast
  qed
next
  show "extractTraceparentData ''00-aaaaaaaaaaaaaaaaaaaaaaaaaaaaaaaa-bbbbbbbbbbbbbbbb-x'' = None"
    by (simp add: extractTraceparentData_def)
qed

text \<open>The token of the test file has the format and is parsed.\<close>

theorem extractTraceparentData_total_witness:
  "traceparentFormat ''00-aaaaaaaaaaaaaaaaaaaaaaaaaaaaaaaa-bbbbbbbbbbbbbbbb-00''
     ''00'' ''aaaaaaaaaaaaaaaaaaaaaaaaaaaaaaaa'' ''bbbbbbbbbbbbbbbb'' ''00''
   \<and> extractTraceparentData ''00-aaaaaaaaaaaaaaaaaaaaaaaaaaaaaaaa-bbbbbbbbbbbbbbbb-00''
       = Some \<lparr>traceId = ''aaaaaaaaaaaaaaaaaaaaaaaaaaaaaaaa'',
               parentSpanId = ''bbbbbbbbbbbbbbbb'', flags = ''00''\<rparr>"
proof -
  have f: "traceparentFormat ''00-aaaaaaaaaaaaaaaaaaaaaaaaaaaaaaaa-bbbbbbbbbbbbbbbb-00''
     ''00'' ''aaaaaaaaaaaaaaaaaaaaaaaaaaaaaaaa'' ''bbbbbbbbbbbbbbbb'' ''00''"
    by (simp add: traceparentFormat_def isHexDigit_def)
  with extractTraceparentData_total
    [of "''00-aaaaaaaaaaaaaaaaaaaaaaaaaaaaaaaa-bbbbbbbbbbbbbbbb-00''"
        "''00''" "''aaaaaaaaaaaaaaaaaaaaaaaaaaaaaaaa''" "''bbbbbbbbbbbbbbbb''" "''00''"]
  show ?thesis by blast
qed

text \<open>
  C10: a token built from a trace id of 32 hexadecimal digits and a span id of 16 parses
  back to the same trace id and the same parent span id, and the span built from the token
  keeps the trace id, has the token's span id as its parent, and has a generated span id
  that differs from the parent's.
\<close>

theorem traceparent_roundtrip:
  assumes "length tid = 32" "list_all isHexDigit tid"
      and "length sid = 16" "list_all isHexDigit sid"
      and "c \<in> set supply" "c \<noteq> sid"
  shows "extractTraceparentData (toTraceparent tid sid sampled)
           = Some \<lparr>traceId = tid, parentSpanId = sid,
                   flags = (if sampled then ''01'' else ''00'')\<rparr>
         \<and> (\<exists>child. fromTraceparent (toTraceparent tid sid sampled) supply = Some child
               \<and> span_traceId child = tid
               \<and> span_parentSpanId child = Some sid
               \<and> span_spanId child \<noteq> sid
               \<and> span_spanId child \<in> set supply)"
proof -
  have fmt: "traceparentFormat (toTraceparent tid sid sampled) ''00'' tid sid
               (if sampled then ''01'' else ''00'')"
    using assms(1-4) by (simp add: traceparentFormat_def toTraceparent_def isHexDigit_def)
  have ex: "extractTraceparentData (toTraceparent tid sid sampled)
           = Some \<lparr>traceId = tid, parentSpanId = sid,
                   flags = (if sampled then ''01'' else ''00'')\<rparr>"
    by (rule extract_of_format [OF fmt])
  from freshSpanId_exists [OF assms(5,6)] obtain d where d: "freshSpanId sid supply = Some d"
    by blast
  from freshSpanId_Some [OF d] have "d \<noteq> sid" "d \<in> set supply" by simp_all
  then show ?thesis using ex d by (simp add: fromTraceparent_def)
qed

text \<open>
  The ids of the specification: 32 times \<open>a\<close> and 16 times \<open>b\<close>, with a generator that
  draws the parent's id first.
\<close>

theorem traceparent_roundtrip_witness:
  "extractTraceparentData
      (toTraceparent ''aaaaaaaaaaaaaaaaaaaaaaaaaaaaaaaa'' ''bbbbbbbbbbbbbbbb'' False)
     = Some \<lparr>traceId = ''aaaaaaaaaaaaaaaaaaaaaaaaaaaaaaaa'',
             parentSpanId = ''bbbbbbbbbbbbbbbb'', flags = ''00''\<rparr>
   \<and> (\<exists>child. fromTraceparent
          (toTraceparent ''aaaaaaaaaaaaaaaaaaaaaaaaaaaaaaaa'' ''bbbbbbbbbbbbbbbb'' False)
          [''bbbbbbbbbbbbbbbb'', ''cccccccccccccccc''] = Some child
        \<and> span_traceId child = ''aaaaaaaaaaaaaaaaaaaaaaaaaaaaaaaa''
        \<and> span_parentSpanId child = Some ''bbbbbbbbbbbbbbbb''
        \<and> span_spanId child \<noteq> ''bbbbbbbbbbbbbbbb'')"
proof -
  have h: "length ''aaaaaaaaaaaaaaaaaaaaaaaaaaaaaaaa'' = 32"
      "list_all isHexDigit ''aaaaaaaaaaaaaaaaaaaaaaaaaaaaaaaa''"
      "length ''bbbbbbbbbbbbbbbb'' = 16"
      "list_all isHexDigit ''bbbbbbbbbbbbbbbb''"
      "''cccccccccccccccc'' \<in> set [''bbbbbbbbbbbbbbbb'', ''cccccccccccccccc'']"
      "''cccccccccccccccc'' \<noteq> ''bbbbbbbbbbbbbbbb''"
    by (simp_all add: isHexDigit_def)
  from traceparent_roundtrip [OF h, of False] show ?thesis by auto
qed


end
